theory Spec2Isabelle
  imports Main
begin

section \<open>Errors\<close>

text \<open>
  Every exception the two modules can raise is a value.  \<open>CycleDetected\<close> is the
  \<^verbatim>\<open>Exception('Cannot toposort: cycle detected.')\<close> of \<^verbatim>\<open>IRGraph.toposort\<close>,
  \<open>Unrecognized\<close> the failure of the transformer dispatch on a node kind that has
  no \<^verbatim>\<open>transform_<Kind>\<close> method; the others are Python's own.
\<close>

datatype error =
  KeyError | IndexError | AssertionError | AttributeError | TypeError
  | CycleDetected | Unrecognized

section \<open>The IR graph (\<^verbatim>\<open>myia/ir/graph.py\<close>)\<close>

subsection \<open>Roles, nodes, the store\<close>

text \<open>
  A role is \<^verbatim>\<open>FN\<close> or \<^verbatim>\<open>IN(i)\<close>; the index is an argument position, a natural
  number.  A node is a Python object, so nodes live in a store addressed by natural
  numbers and an edge is an address (or \<^verbatim>\<open>None\<close>).  Of the attributes of
  \<^verbatim>\<open>IRNode\<close> the record keeps the ones the modelled methods read or write:
  \<^verbatim>\<open>fn\<close>, \<^verbatim>\<open>inputs\<close>, \<^verbatim>\<open>users\<close> and \<^verbatim>\<open>value\<close>.
\<close>

datatype role = FN | IN nat

datatype node_value = NO_VALUE | Literal string | GraphRef nat

record irnode =
  fn :: "nat option"
  inputs :: "nat option list"
  users :: "(role \<times> nat) set"
  nvalue :: node_value

type_synonym store = "nat \<Rightarrow> irnode"

text \<open>\<^verbatim>\<open>IRNode.__init__\<close>: a node is created bare.\<close>

definition new_node :: "node_value \<Rightarrow> irnode" where
  "new_node v = \<lparr>fn = None, inputs = [], users = {}, nvalue = v\<rparr>"

definition is_input :: "irnode \<Rightarrow> bool" where
  "is_input n = (fn n = None \<and> nvalue n = NO_VALUE)"

definition is_computation :: "irnode \<Rightarrow> bool" where
  "is_computation n = (fn n \<noteq> None)"

definition is_constant :: "irnode \<Rightarrow> bool" where
  "is_constant n = (nvalue n \<noteq> NO_VALUE)"

text \<open>
  \<^verbatim>\<open>successors\<close>: the set \<^verbatim>\<open>{s for s in [self.fn] + self.inputs if s}\<close>.  A node
  object is always truthy, so the filter drops exactly the \<^verbatim>\<open>None\<close> entries.  The
  list version fixes the order in which \<^verbatim>\<open>toposort\<close> walks that set.
\<close>

definition successors_list :: "irnode \<Rightarrow> nat list" where
  "successors_list n = remdups (List.map_filter id (fn n # inputs n))"

definition successors :: "irnode \<Rightarrow> nat set" where
  "successors n = set (successors_list n)"

text \<open>
  The forward edge of a node at a role, \<^verbatim>\<open>None\<close> where the role has no occupant
  (also for an argument position beyond the end of \<^verbatim>\<open>inputs\<close>).
\<close>

definition forward :: "irnode \<Rightarrow> role \<Rightarrow> nat option" where
  "forward n r =
     (case r of
        FN \<Rightarrow> fn n
      | IN i \<Rightarrow> if i < length (inputs n) then inputs n ! i else None)"

text \<open>
  \<^verbatim>\<open>__getitem__\<close>, and the read at the head of \<^verbatim>\<open>set_succ_operations\<close>: Python
  raises \<^verbatim>\<open>IndexError\<close> for a position beyond the list.
\<close>

definition get_succ :: "irnode \<Rightarrow> role \<Rightarrow> error + nat option" where
  "get_succ n r =
     (case r of
        FN \<Rightarrow> Inr (fn n)
      | IN i \<Rightarrow> if i < length (inputs n) then Inr (inputs n ! i) else Inl IndexError)"

subsection \<open>Atomic operations\<close>

text \<open>
  The tuples \<^verbatim>\<open>('link', n1, n2, role)\<close>, \<^verbatim>\<open>('unlink', n1, n2, role)\<close> and
  \<^verbatim>\<open>('redirect', n1, n2, None)\<close>.
\<close>

datatype operation =
  Link nat nat role
  | Unlink nat nat role
  | RedirectOp nat "nat option"

definition add_user :: "store \<Rightarrow> nat \<Rightarrow> role \<times> nat \<Rightarrow> store" where
  "add_user h node e = h(node := (h node)\<lparr>users := insert e (users (h node))\<rparr>)"

text \<open>\<^verbatim>\<open>set.remove\<close> raises \<^verbatim>\<open>KeyError\<close> when the element is absent.\<close>

definition remove_user :: "store \<Rightarrow> nat \<Rightarrow> role \<times> nat \<Rightarrow> error + store" where
  "remove_user h node e =
     (if e \<in> users (h node)
      then Inr (h(node := (h node)\<lparr>users := users (h node) - {e}\<rparr>))
      else Inl KeyError)"

text \<open>
  \<^verbatim>\<open>n1.process_operation(op, n2, role)\<close>.  The forward edge of \<open>self\<close> is written
  first and the \<^verbatim>\<open>users\<close> set of \<open>node\<close> is read from the store after that
  write, so the model is right when \<open>self\<close> and \<open>node\<close> are the same object.
\<close>

definition process_operation :: "store \<Rightarrow> operation \<Rightarrow> error + store" where
  "process_operation h oper =
     (case oper of
        Link self node r \<Rightarrow>
          (case r of
             FN \<Rightarrow>
               if fn (h self) \<noteq> None then Inl AssertionError
               else Inr (add_user (h(self := (h self)\<lparr>fn := Some node\<rparr>)) node (r, self))
           | IN idx \<Rightarrow>
               let nin = length (inputs (h self));
                   ins = (if nin \<le> idx
                          then inputs (h self) @ replicate (idx - nin + 1) None
                          else inputs (h self))
               in if ins ! idx \<noteq> None then Inl AssertionError
                  else Inr (add_user
                              (h(self := (h self)\<lparr>inputs := ins[idx := Some node]\<rparr>))
                              node (r, self)))
      | Unlink self node r \<Rightarrow>
          (case r of
             FN \<Rightarrow>
               if fn (h self) \<noteq> Some node then Inl AssertionError
               else remove_user (h(self := (h self)\<lparr>fn := None\<rparr>)) node (r, self)
           | IN idx \<Rightarrow>
               if length (inputs (h self)) \<le> idx then Inl IndexError
               else if inputs (h self) ! idx \<noteq> Some node then Inl AssertionError
               else remove_user
                      (h(self := (h self)\<lparr>inputs := (inputs (h self))[idx := None]\<rparr>))
                      node (r, self))
      | RedirectOp self node \<Rightarrow> Inr h)"

text \<open>\<^verbatim>\<open>_commit\<close>: the operations are applied in order; the first exception ends it.\<close>

fun commit :: "store \<Rightarrow> operation list \<Rightarrow> error + store" where
  "commit h [] = Inr h"
| "commit h (oper # opers) =
     (case process_operation h oper of
        Inl e \<Rightarrow> Inl e
      | Inr h' \<Rightarrow> commit h' opers)"

subsection \<open>Computing the operations of a mutation\<close>

definition link_to :: "nat \<Rightarrow> role \<Rightarrow> nat option \<Rightarrow> operation list" where
  "link_to self r node = (case node of None \<Rightarrow> [] | Some n \<Rightarrow> [Link self n r])"

definition set_succ_operations ::
  "store \<Rightarrow> nat \<Rightarrow> role \<Rightarrow> nat option \<Rightarrow> error + operation list" where
  "set_succ_operations h self r node =
     (case get_succ (h self) r of
        Inl e \<Rightarrow> Inl e
      | Inr unl \<Rightarrow>
          (case unl of
             Some u \<Rightarrow>
               if unl = node then Inr []
               else Inr (Unlink self u r # link_to self r node)
           | None \<Rightarrow> Inr (link_to self r node)))"

definition unlink_inputs :: "nat \<Rightarrow> nat option list \<Rightarrow> operation list" where
  "unlink_inputs self ins =
     concat (map (\<lambda>(i, inp). case inp of None \<Rightarrow> [] | Some b \<Rightarrow> [Unlink self b (IN i)])
                 (enumerate 0 ins))"

definition link_inputs :: "nat \<Rightarrow> nat option list \<Rightarrow> operation list" where
  "link_inputs self ins =
     concat (map (\<lambda>(i, inp). case inp of None \<Rightarrow> [] | Some b \<Rightarrow> [Link self b (IN i)])
                 (enumerate 0 ins))"

definition set_app_operations ::
  "store \<Rightarrow> nat \<Rightarrow> nat option \<Rightarrow> nat option list \<Rightarrow> error + operation list" where
  "set_app_operations h self f ins =
     (case set_succ_operations h self FN f of
        Inl e \<Rightarrow> Inl e
      | Inr rval \<Rightarrow>
          (case f of
             None \<Rightarrow> Inr rval
           | Some _ \<Rightarrow>
               Inr (rval @ unlink_inputs self (inputs (h self)) @ link_inputs self ins)))"

text \<open>
  \<^verbatim>\<open>redirect_operations\<close> iterates over \<^verbatim>\<open>set(self.users)\<close>.  Python leaves the
  order of a set open: the model takes the order as the list \<open>us\<close>, and the theorems
  hold for every list that enumerates the users.
\<close>

fun redirect_loop ::
  "store \<Rightarrow> nat option \<Rightarrow> (role \<times> nat) list \<Rightarrow> error + operation list" where
  "redirect_loop h node [] = Inr []"
| "redirect_loop h node ((r, n) # us) =
     (case set_succ_operations h n r node of
        Inl e \<Rightarrow> Inl e
      | Inr opers \<Rightarrow>
          (case redirect_loop h node us of
             Inl e \<Rightarrow> Inl e
           | Inr rest \<Rightarrow> Inr (opers @ rest)))"

definition redirect_operations ::
  "store \<Rightarrow> nat \<Rightarrow> nat option \<Rightarrow> (role \<times> nat) list \<Rightarrow> error + operation list" where
  "redirect_operations h self node us =
     (case redirect_loop h node us of
        Inl e \<Rightarrow> Inl e
      | Inr rval \<Rightarrow> Inr (rval @ [RedirectOp self node]))"

subsection \<open>The mutations\<close>

definition set_succ :: "store \<Rightarrow> nat \<Rightarrow> role \<Rightarrow> nat option \<Rightarrow> error + store" where
  "set_succ h self r node =
     (case set_succ_operations h self r node of
        Inl e \<Rightarrow> Inl e
      | Inr opers \<Rightarrow> commit h opers)"

definition set_app :: "store \<Rightarrow> nat \<Rightarrow> nat option \<Rightarrow> nat option list \<Rightarrow> error + store" where
  "set_app h self f ins =
     (case set_app_operations h self f ins of
        Inl e \<Rightarrow> Inl e
      | Inr opers \<Rightarrow> commit h opers)"

definition redirect ::
  "store \<Rightarrow> nat \<Rightarrow> nat option \<Rightarrow> (role \<times> nat) list \<Rightarrow> error + store" where
  "redirect h self node us =
     (case redirect_operations h self node us of
        Inl e \<Rightarrow> Inl e
      | Inr opers \<Rightarrow> commit h opers)"

text \<open>
  \<^verbatim>\<open>IRGraph\<close>: the record keeps \<^verbatim>\<open>inputs\<close> and \<^verbatim>\<open>output\<close> (\<^verbatim>\<open>None\<close> until it is
  set).  \<^verbatim>\<open>replace\<close> redirects and then moves the output pointer.
\<close>

record irgraph =
  ginputs :: "nat list"
  goutput :: "nat option"

definition replace ::
  "store \<times> irgraph \<Rightarrow> nat \<Rightarrow> nat option \<Rightarrow> (role \<times> nat) list \<Rightarrow> error + store \<times> irgraph" where
  "replace hg node1 node2 us =
     (case redirect (fst hg) node1 node2 us of
        Inl e \<Rightarrow> Inl e
      | Inr h' \<Rightarrow>
          Inr (h', if goutput (snd hg) = Some node1
                   then (snd hg)\<lparr>goutput := node2\<rparr> else snd hg))"

text \<open>A sequence of mutations of one graph and its store.\<close>

datatype mutation =
  SetSucc nat role "nat option"
  | SetApp nat "nat option" "nat option list"
  | Redirect nat "nat option" "(role \<times> nat) list"
  | Replace nat "nat option" "(role \<times> nat) list"

definition mutate :: "store \<times> irgraph \<Rightarrow> mutation \<Rightarrow> error + store \<times> irgraph" where
  "mutate hg m =
     (case m of
        SetSucc a r node \<Rightarrow>
          (case set_succ (fst hg) a r node of Inl e \<Rightarrow> Inl e | Inr h' \<Rightarrow> Inr (h', snd hg))
      | SetApp a f ins \<Rightarrow>
          (case set_app (fst hg) a f ins of Inl e \<Rightarrow> Inl e | Inr h' \<Rightarrow> Inr (h', snd hg))
      | Redirect a node us \<Rightarrow>
          (case redirect (fst hg) a node us of Inl e \<Rightarrow> Inl e | Inr h' \<Rightarrow> Inr (h', snd hg))
      | Replace a node us \<Rightarrow> replace hg a node us)"

fun mutate_all :: "store \<times> irgraph \<Rightarrow> mutation list \<Rightarrow> error + store \<times> irgraph" where
  "mutate_all hg [] = Inr hg"
| "mutate_all hg (m # ms) =
     (case mutate hg m of
        Inl e \<Rightarrow> Inl e
      | Inr hg' \<Rightarrow> mutate_all hg' ms)"

subsection \<open>Edge symmetry\<close>

text \<open>
  \<open>A\<close> has the forward edge \<open>(r, B)\<close> exactly when \<open>(r, A)\<close> is in the users of
  \<open>B\<close>.  The users are a set, so the entry is there once; read from right to left,
  no users entry lacks its forward edge.
\<close>

definition edge_sym :: "store \<Rightarrow> bool" where
  "edge_sym h = (\<forall>a r b. forward (h a) r = Some b \<longleftrightarrow> (r, a) \<in> users (h b))"

subsection \<open>Toposort\<close>

text \<open>
  The state of the loop of \<^verbatim>\<open>toposort\<close>: the dictionary \<^verbatim>\<open>pred\<close> (a key maps to
  a set of nodes, or to \<^verbatim>\<open>None\<close> once the key has been made ready), the sets
  \<^verbatim>\<open>ready\<close> and \<^verbatim>\<open>processed\<close>, and the list \<^verbatim>\<open>results\<close>.
\<close>

record topo_state =
  pred :: "nat \<rightharpoonup> nat set option"
  ready :: "nat set"
  processed :: "nat set"
  results :: "nat list"

text \<open>
  The body of the inner \<^verbatim>\<open>for succ in node.successors()\<close>.  \<^verbatim>\<open>d.remove(node)\<close>
  is an \<^verbatim>\<open>AttributeError\<close> when \<^verbatim>\<open>d\<close> is \<^verbatim>\<open>None\<close> and a \<^verbatim>\<open>KeyError\<close> when
  \<^verbatim>\<open>node\<close> is not in \<^verbatim>\<open>d\<close>; the set is changed in place, so the dictionary sees
  the removal.
\<close>

definition visit_succ :: "store \<Rightarrow> nat \<Rightarrow> topo_state \<Rightarrow> nat \<Rightarrow> error + topo_state" where
  "visit_succ h node st s =
     (let p = (case pred st s of
                 None \<Rightarrow> (pred st)(s \<mapsto> Some (snd ` users (h s)))
               | Some _ \<Rightarrow> pred st)
      in case the (p s) of
           None \<Rightarrow> Inl AttributeError
         | Some d \<Rightarrow>
             if node \<notin> d then Inl KeyError
             else if d - {node} = {}
                  then Inr (st\<lparr>pred := p(s \<mapsto> None), ready := insert s (ready st)\<rparr>)
                  else Inr (st\<lparr>pred := p(s \<mapsto> Some (d - {node}))\<rparr>))"

fun visit_all :: "store \<Rightarrow> nat \<Rightarrow> topo_state \<Rightarrow> nat list \<Rightarrow> error + topo_state" where
  "visit_all h node st [] = Inr st"
| "visit_all h node st (s # ss) =
     (case visit_succ h node st s of
        Inl e \<Rightarrow> Inl e
      | Inr st' \<Rightarrow> visit_all h node st' ss)"

text \<open>
  The \<^verbatim>\<open>while ready\<close> loop.  \<^verbatim>\<open>ready.pop()\<close> takes an arbitrary element: the model
  takes the choice as the function \<open>pick\<close>, and the theorems hold for every \<open>pick\<close>
  that returns an element of the set it is given.  A loop that does not end is the
  value \<open>None\<close>.
\<close>

partial_function (option) toposort_loop ::
  "(nat set \<Rightarrow> nat) \<Rightarrow> store \<Rightarrow> topo_state \<Rightarrow> (error + nat list) option" where
  "toposort_loop pick h st =
     (if ready st = {} then Some (Inr (rev (results st)))
      else
        let node = pick (ready st);
            st1 = st\<lparr>ready := ready st - {node}\<rparr>
        in if \<not> is_computation (h node) then toposort_loop pick h st1
           else if node \<in> processed st1 then Some (Inl CycleDetected)
           else
             case visit_all h node
                    (st1\<lparr>processed := insert node (processed st1),
                         results := results st1 @ [node]\<rparr>)
                    (successors_list (h node)) of
               Inl e \<Rightarrow> Some (Inl e)
             | Inr st2 \<Rightarrow> toposort_loop pick h st2)"

definition toposort ::
  "(nat set \<Rightarrow> nat) \<Rightarrow> store \<Rightarrow> irgraph \<Rightarrow> (error + nat list) option" where
  "toposort pick h g =
     (case goutput g of
        None \<Rightarrow> Some (Inl AttributeError)
      | Some out \<Rightarrow>
          if \<not> is_computation (h out) then Some (Inr [])
          else toposort_loop pick h
                 \<lparr>pred = Map.empty, ready = {out}, processed = {}, results = []\<rparr>)"

section \<open>A-normal form (\<^verbatim>\<open>myia/compile.py\<close>)\<close>

subsection \<open>Expression trees\<close>

text \<open>
  Modelled from the spec: the node classes of \<^verbatim>\<open>myia.ast\<close> (\<^verbatim>\<open>Apply\<close>,
  \<^verbatim>\<open>Symbol\<close>, \<^verbatim>\<open>Value\<close>, \<^verbatim>\<open>Let\<close>, \<^verbatim>\<open>Lambda\<close>, \<^verbatim>\<open>If\<close>, \<^verbatim>\<open>Tuple\<close>,
  \<^verbatim>\<open>Closure\<close>, \<^verbatim>\<open>Begin\<close>) are not among the sources; the datatype follows the data
  model of the spec and the attributes \<^verbatim>\<open>compile.py\<close> reads.  The label of a symbol
  is a string or again a symbol (\<^verbatim>\<open>while isinstance(base_label, Symbol)\<close>); the
  number is what tells two symbols of one label apart.  A \<^verbatim>\<open>Lambda\<close> refers to its
  name generator, an object, by an address, and carries the provenance \<^verbatim>\<open>ref\<close>.
\<close>

datatype slabel = LStr string | LSym symbol
  and symbol = Symbol slabel nat

datatype expr =
  Apply expr "expr list"
  | Sym symbol
  | Value int
  | Let "(symbol \<times> expr) list" expr
  | Lambda "symbol list" expr nat nat
  | If expr expr expr
  | Tuple "expr list"
  | Closure expr "expr list"
  | Begin "expr list"

type_synonym bindings = "(symbol \<times> expr) list"

text \<open>\<^verbatim>\<open>isinstance(stmt, (Symbol, Value))\<close>\<close>

fun is_atom :: "expr \<Rightarrow> bool" where
  "is_atom (Sym s) = True"
| "is_atom (Value v) = True"
| "is_atom e = False"

fun is_Let :: "expr \<Rightarrow> bool" where
  "is_Let (Let bs body) = True"
| "is_Let e = False"

subsection \<open>The name generator\<close>

text \<open>
  Modelled from the spec: \<^verbatim>\<open>GenSym\<close> (\<^verbatim>\<open>myia.front\<close>) is not among the sources.
  The spec has it mint fresh names, unique within the generator's scope, from an
  append-only counter.  A generator is an object shared by reference, so the
  generators live in a store: an address maps to the counter of that generator.
  \<^verbatim>\<open>gen.sym(name)\<close> and \<^verbatim>\<open>gen(name)\<close> return the symbol of that label stamped with
  the counter, and advance the counter.
\<close>

type_synonym gens = "nat \<Rightarrow> nat"

definition gen_sym :: "gens \<Rightarrow> nat \<Rightarrow> string \<Rightarrow> symbol \<times> gens" where
  "gen_sym G k name = (Symbol (LStr name) (G k), G(k := Suc (G k)))"

subsection \<open>The stash\<close>

text \<open>
  The stash directive is \<^verbatim>\<open>False\<close> or a pair \<^verbatim>\<open>(name, list)\<close>; the list is the
  accumulator of the caller, to which \<^verbatim>\<open>stash\<close> appends.  The model passes the
  contents of the accumulator in and returns them (the empty list under
  \<^verbatim>\<open>False\<close>, where there is no accumulator).  \<^verbatim>\<open>name or default_name\<close> takes the
  default for \<^verbatim>\<open>None\<close> and for the empty string.  The transformer's \<^verbatim>\<open>gen\<close> is
  \<^verbatim>\<open>None\<close> or a generator; \<^verbatim>\<open>None.sym\<close> is an \<^verbatim>\<open>AttributeError\<close>.
\<close>

datatype stash = NoStash | Stash "string option" bindings

definition name_or :: "string option \<Rightarrow> string \<Rightarrow> string" where
  "name_or name default_name =
     (case name of None \<Rightarrow> default_name | Some n \<Rightarrow> if n = [] then default_name else n)"

definition stash ::
  "nat option \<Rightarrow> stash \<Rightarrow> expr \<Rightarrow> string \<Rightarrow> gens \<Rightarrow> error + expr \<times> bindings \<times> gens" where
  "stash gen st result default_name G =
     (case st of
        NoStash \<Rightarrow> Inr (result, [], G)
      | Stash name acc \<Rightarrow>
          (case gen of
             None \<Rightarrow> Inl AttributeError
           | Some k \<Rightarrow>
               (case gen_sym G k (name_or name default_name) of
                  (nm, G') \<Rightarrow> Inr (Sym nm, acc @ [(nm, result)], G'))))"

subsection \<open>The base name of an application\<close>

fun label_string :: "slabel \<Rightarrow> string"
  and base_label :: "symbol \<Rightarrow> string" where
  "label_string (LStr s) = s"
| "label_string (LSym s) = base_label s"
| "base_label (Symbol l v) = label_string l"

text \<open>The character class \<^verbatim>\<open>[A-Za-z_]\<close>.\<close>

definition ident_char :: "char \<Rightarrow> bool" where
  "ident_char c =
     (let n = of_char c :: nat
      in (65 \<le> n \<and> n \<le> 90) \<or> (97 \<le> n \<and> n \<le> 122) \<or> n = 95)"

text \<open>
  The base name, from the transformed function position.  That position holds a symbol
  or a \<^verbatim>\<open>Value\<close>; for a \<^verbatim>\<open>Value\<close> the test \<^verbatim>\<open>"/" in base_label\<close> is applied to
  the node object itself, a \<^verbatim>\<open>TypeError\<close>.  \<^verbatim>\<open>re.split("[^A-Za-z_]", s)[0]\<close> is the
  longest prefix of \<open>s\<close> in the character class.
\<close>

definition base_name_of :: "string \<Rightarrow> string" where
  "base_name_of l =
     (if CHR ''/'' \<in> set l then []
      else if take 1 l = ''#'' then l
      else takeWhile ident_char l)"

definition derive_base_name :: "expr \<Rightarrow> error + string" where
  "derive_base_name f =
     (case f of
        Sym s \<Rightarrow> Inr (base_name_of (base_label s))
      | _ \<Rightarrow> Inl TypeError)"

text \<open>\<^verbatim>\<open>str(n)\<close> for a natural number.\<close>

definition digit_char :: "nat \<Rightarrow> char" where
  "digit_char d = ''0123456789'' ! d"

fun string_of_nat :: "nat \<Rightarrow> string" where
  "string_of_nat n =
     (if n < 10 then [digit_char n]
      else string_of_nat (n div 10) @ [digit_char (n mod 10)])"

text \<open>\<^verbatim>\<open>['in' + str(i + 1) for i, _ in enumerate(args)]\<close>; a tag \<^verbatim>\<open>False\<close> is \<open>None\<close>.\<close>

definition default_tags :: "'a list \<Rightarrow> string option list" where
  "default_tags args = map (\<lambda>i. Some (''in'' @ string_of_nat (i + 1))) [0..<length args]"

subsection \<open>Rebuilding the node\<close>

text \<open>
  The \<^verbatim>\<open>constructor\<close> argument of \<^verbatim>\<open>transform_arguments\<close>: \<^verbatim>\<open>Apply\<close>, \<^verbatim>\<open>If\<close>,
  \<^verbatim>\<open>_Tuple\<close> or \<^verbatim>\<open>rebuild\<close>, called as \<^verbatim>\<open>constructor(*new_args)\<close>.  A call with
  the wrong number of arguments is a \<^verbatim>\<open>TypeError\<close>.
\<close>

datatype ctor = CApply | CIf | CTuple | CClosure

fun construct :: "ctor \<Rightarrow> expr list \<Rightarrow> error + expr" where
  "construct CApply (f # args) = Inr (Apply f args)"
| "construct CIf [c, t, f] = Inr (If c t f)"
| "construct CTuple args = Inr (Tuple args)"
| "construct CClosure (f # args) = Inr (Closure f args)"
| "construct c args = Inl TypeError"

text \<open>
  The end of \<^verbatim>\<open>transform_arguments\<close>, from \<^verbatim>\<open>app = constructor(*new_args)\<close> on.
\<close>

definition finish_arguments ::
  "nat option \<Rightarrow> ctor \<Rightarrow> stash \<Rightarrow> string \<Rightarrow> expr list \<Rightarrow> bindings \<Rightarrow> gens
     \<Rightarrow> error + expr \<times> bindings \<times> gens" where
  "finish_arguments gen c st base_name new_args bs G =
     (case construct c new_args of
        Inl e \<Rightarrow> Inl e
      | Inr app \<Rightarrow>
          (case st of
             NoStash \<Rightarrow>
               (case stash gen (Stash None bs) app (base_name @ ''/out'') G of
                  Inl e \<Rightarrow> Inl e
                | Inr (nm, bs', G') \<Rightarrow>
                    stash gen NoStash (Let bs' nm) (base_name @ ''/out'') G')
           | Stash name acc \<Rightarrow>
               stash gen st (if bs \<noteq> [] then Let bs app else app) (base_name @ ''/out'') G))"

text \<open>
  \<^verbatim>\<open>[self.gen('_') for stmt in stmts]\<close>: calling \<^verbatim>\<open>None\<close> is a \<^verbatim>\<open>TypeError\<close>, but
  only when there is a statement to call it for.
\<close>

fun gen_syms :: "nat option \<Rightarrow> 'a list \<Rightarrow> gens \<Rightarrow> error + symbol list \<times> gens" where
  "gen_syms gen [] G = Inr ([], G)"
| "gen_syms None (x # xs) G = Inl TypeError"
| "gen_syms (Some k) (x # xs) G =
     (case gen_sym G k ''_'' of
        (s, G') \<Rightarrow>
          (case gen_syms (Some k) xs G' of
             Inl e \<Rightarrow> Inl e
           | Inr (ss, G'') \<Rightarrow> Inr (s # ss, G'')))"

text \<open>
  The statements \<^verbatim>\<open>transform_Begin\<close> keeps:
  \<^verbatim>\<open>[s for s in node.stmts[:-1] if not isinstance(s, (Symbol, Value))] + node.stmts[-1:]\<close>.
\<close>

definition begin_stmts :: "expr list \<Rightarrow> expr list" where
  "begin_stmts stmts =
     filter (\<lambda>s. \<not> is_atom s) (butlast stmts) @ drop (length stmts - 1) stmts"

subsection \<open>Measures for the recursion of the transformer\<close>

text \<open>
  The transformer recurses on the children of a node, and \<^verbatim>\<open>transform_Begin\<close> on a
  \<^verbatim>\<open>Let\<close> it builds from the statements it keeps.  The sum of the sizes of the
  expressions handed on decreases, or stays and the list gets shorter.
\<close>

definition esum :: "expr list \<Rightarrow> nat" where
  "esum es = sum_list (map size es)"

definition bsum :: "bindings \<Rightarrow> nat" where
  "bsum bs = sum_list (map (\<lambda>b. size (snd b)) bs)"

lemma esum_simps [simp]: "esum [] = 0" "esum (e # es) = size e + esum es"
  by (simp_all add: esum_def)

lemma bsum_simps [simp]: "bsum [] = 0" "bsum ((s, b) # bs) = size b + bsum bs"
  by (simp_all add: bsum_def)

lemma esum_append [simp]: "esum (xs @ ys) = esum xs + esum ys"
  by (simp add: esum_def)

lemma esum_le_size_list: "esum es \<le> size_list size es"
  by (induction es) auto

lemma bsum_le_size_list: "bsum bs \<le> size_list (size_prod (\<lambda>x. 0) size) bs"
  by (induction bs) auto

lemma esum_filter_le: "esum (filter P es) \<le> esum es"
  by (induction es) auto

lemma esum_begin_stmts: "esum (begin_stmts stmts) \<le> esum stmts"
proof (cases "stmts = []")
  case True
  then show ?thesis by (simp add: begin_stmts_def)
next
  case False
  then have "stmts = butlast stmts @ [last stmts]" by simp
  then have "esum stmts = esum (butlast stmts) + size (last stmts)"
    by (metis esum_append esum_simps add.right_neutral)
  moreover have "drop (length stmts - 1) stmts = [last stmts]"
    using False by (metis append_butlast_last_id append_eq_conv_conj length_butlast)
  ultimately show ?thesis
    using esum_filter_le[of "\<lambda>s. \<not> is_atom s" "butlast stmts"] by (simp add: begin_stmts_def)
qed

lemma bsum_zip_le: "bsum (zip ss es) \<le> esum es"
proof (induction es arbitrary: ss)
  case Nil
  then show ?case by simp
next
  case (Cons e es)
  show ?case
  proof (cases ss)
    case Nil
    then show ?thesis by simp
  next
    case (Cons s ss')
    then show ?thesis using Cons.IH[of ss'] by simp
  qed
qed

lemma size_mem_le_esum: "e \<in> set es \<Longrightarrow> size e \<le> esum es"
  by (induction es) auto

lemma size_hd_begin_stmts:
  assumes "length (begin_stmts stmts) = 1"
  shows "size (hd (begin_stmts stmts)) \<le> size_list size stmts"
proof -
  from assms have "hd (begin_stmts stmts) \<in> set (begin_stmts stmts)"
    by (cases "begin_stmts stmts") auto
  then have "size (hd (begin_stmts stmts)) \<le> esum (begin_stmts stmts)"
    by (rule size_mem_le_esum)
  also have "\<dots> \<le> esum stmts" by (rule esum_begin_stmts)
  also have "\<dots> \<le> size_list size stmts" by (rule esum_le_size_list)
  finally show ?thesis .
qed

definition transform_measure ::
  "((nat option \<times> expr \<times> stash \<times> gens) +
    (nat option \<times> expr list \<times> ctor \<times> stash \<times> string option \<times> string option list option \<times> gens)) +
   ((nat option \<times> string \<times> expr list \<times> string option list \<times> bindings \<times> gens) +
    ((nat option \<times> bindings \<times> expr \<times> stash \<times> gens) + (nat option \<times> bindings \<times> gens)))
   \<Rightarrow> nat \<times> nat" where
  "transform_measure x =
     (case x of
        Inl (Inl (gen, e, st, G)) \<Rightarrow> (size e, 0)
      | Inl (Inr (gen, args, c, st, b, tags, G)) \<Rightarrow> (esum args, length args + 2)
      | Inr (Inl (gen, b, args, tags, bs, G)) \<Rightarrow> (esum args, length args + 1)
      | Inr (Inr (Inl (gen, bs, body, st, G))) \<Rightarrow> (bsum bs + size body, length bs + 2)
      | Inr (Inr (Inr (gen, bs, G))) \<Rightarrow> (bsum bs, length bs + 1))"

subsection \<open>The A-normal transformer\<close>

text \<open>
  Modelled from the spec: the base class \<^verbatim>\<open>Transformer\<close> (\<^verbatim>\<open>myia.ast\<close>) is not
  among the sources; its method \<^verbatim>\<open>transform\<close> dispatches on the kind of the node to
  \<^verbatim>\<open>transform_<Kind>\<close>, passing the keyword arguments on, and fails on a kind that
  has no such method.

  The methods of \<^verbatim>\<open>ANormalTransformer\<close> call one another through \<^verbatim>\<open>transform\<close>,
  so they are one recursive definition.  \<open>transform gen node st G\<close> is
  \<^verbatim>\<open>self.transform(node, stash=st)\<close> of a transformer whose \<^verbatim>\<open>gen\<close> is \<open>gen\<close>,
  with the generators in state \<open>G\<close>; it returns the new node, the accumulator of the
  stash and the generators.  \<open>transform_loop\<close> is the loop
  \<^verbatim>\<open>for arg, tag in zip(args, tags)\<close>, \<open>transform_bindings\<close> the list comprehension
  of \<^verbatim>\<open>transform_Let\<close>.  The empty tuple unpacking \<^verbatim>\<open>fn, *args = args\<close> would be a
  \<^verbatim>\<open>ValueError\<close>; no caller passes an empty list there, and the model returns
  \<open>TypeError\<close> for it.
\<close>

function transform ::
    "nat option \<Rightarrow> expr \<Rightarrow> stash \<Rightarrow> gens \<Rightarrow> error + expr \<times> bindings \<times> gens"
  and transform_arguments ::
    "nat option \<Rightarrow> expr list \<Rightarrow> ctor \<Rightarrow> stash \<Rightarrow> string option \<Rightarrow> string option list option
       \<Rightarrow> gens \<Rightarrow> error + expr \<times> bindings \<times> gens"
  and transform_loop ::
    "nat option \<Rightarrow> string \<Rightarrow> expr list \<Rightarrow> string option list \<Rightarrow> bindings \<Rightarrow> gens
       \<Rightarrow> error + expr list \<times> bindings \<times> gens"
  and transform_Let ::
    "nat option \<Rightarrow> bindings \<Rightarrow> expr \<Rightarrow> stash \<Rightarrow> gens \<Rightarrow> error + expr \<times> bindings \<times> gens"
  and transform_bindings ::
    "nat option \<Rightarrow> bindings \<Rightarrow> gens \<Rightarrow> error + bindings \<times> gens"
where
  "transform gen (Apply f args) st G =
     transform_arguments gen (f # args) CApply st None None G"
| "transform gen (Sym s) st G = Inr (Sym s, (case st of NoStash \<Rightarrow> [] | Stash n acc \<Rightarrow> acc), G)"
| "transform gen (Value v) st G =
     Inr (Value v, (case st of NoStash \<Rightarrow> [] | Stash n acc \<Rightarrow> acc), G)"
| "transform gen (Lambda args body lgen ref) st G =
     (case transform (Some lgen) body NoStash G of
        Inl e \<Rightarrow> Inl e
      | Inr (body', bs, G') \<Rightarrow> stash gen st (Lambda args body' lgen ref) ''lambda'' G')"
| "transform gen (If c t f) st G =
     transform_arguments gen [c, t, f] CIf st (Some ''if'')
       (Some [Some ''cond'', Some ''then'', Some ''else'']) G"
| "transform gen (Let bs body) st G = transform_Let gen bs body st G"
| "transform gen (Tuple vs) st G =
     transform_arguments gen vs CTuple st (Some ''tup'') None G"
| "transform gen (Closure f args) st G =
     transform_arguments gen (f # args) CClosure st (Some ''closure'') None G"
| "transform gen (Begin stmts) st G =
     (if length (begin_stmts stmts) = 1
      then transform gen (hd (begin_stmts stmts)) st G
      else
        case gen_syms gen (begin_stmts stmts) G of
          Inl e \<Rightarrow> Inl e
        | Inr (syms, G') \<Rightarrow>
            if syms = [] then Inl IndexError
            else transform_Let gen (zip syms (begin_stmts stmts)) (Sym (last syms)) st G')"
| "transform_arguments gen args c st None tags G =
     (case args of
        [] \<Rightarrow> Inl TypeError
      | f # rest \<Rightarrow>
          (case transform gen f (Stash None []) G of
             Inl e \<Rightarrow> Inl e
           | Inr (f', bs, G1) \<Rightarrow>
               (case derive_base_name f' of
                  Inl e \<Rightarrow> Inl e
                | Inr base_name \<Rightarrow>
                    (case transform_loop gen base_name rest
                            (case tags of None \<Rightarrow> default_tags rest | Some ts \<Rightarrow> ts) bs G1 of
                       Inl e \<Rightarrow> Inl e
                     | Inr (new_args, bs', G2) \<Rightarrow>
                         finish_arguments gen c st base_name (f' # new_args) bs' G2))))"
| "transform_arguments gen args c st (Some base_name) tags G =
     (case transform_loop gen base_name args
             (case tags of None \<Rightarrow> default_tags args | Some ts \<Rightarrow> ts) [] G of
        Inl e \<Rightarrow> Inl e
      | Inr (new_args, bs', G2) \<Rightarrow> finish_arguments gen c st base_name new_args bs' G2)"
| "transform_loop gen base_name [] tags bs G = Inr ([], bs, G)"
| "transform_loop gen base_name (a # args) [] bs G = Inr ([], bs, G)"
| "transform_loop gen base_name (a # args) (tag # tags) bs G =
     (case (case tag of
              None \<Rightarrow>
                (case transform gen a NoStash G of
                   Inl e \<Rightarrow> Inl e
                 | Inr (a', unused, G') \<Rightarrow> Inr (a', bs, G'))
            | Some t \<Rightarrow> transform gen a (Stash (Some (base_name @ ''/'' @ t)) bs) G) of
        Inl e \<Rightarrow> Inl e
      | Inr (a', bs', G') \<Rightarrow>
          (case transform_loop gen base_name args tags bs' G' of
             Inl e \<Rightarrow> Inl e
           | Inr (new_args, bs'', G'') \<Rightarrow> Inr (a' # new_args, bs'', G'')))"
| "transform_Let gen bs body st G =
     (case transform_bindings gen bs G of
        Inl e \<Rightarrow> Inl e
      | Inr (bs', G1) \<Rightarrow>
          (case transform gen body NoStash G1 of
             Inl e \<Rightarrow> Inl e
           | Inr (body', unused, G2) \<Rightarrow> stash gen st (Let bs' body') ''if'' G2))"
| "transform_bindings gen [] G = Inr ([], G)"
| "transform_bindings gen ((s, b) # bs) G =
     (case transform gen b NoStash G of
        Inl e \<Rightarrow> Inl e
      | Inr (b', unused, G1) \<Rightarrow>
          (case transform_bindings gen bs G1 of
             Inl e \<Rightarrow> Inl e
           | Inr (bs', G2) \<Rightarrow> Inr ((s, b') # bs', G2)))"
  by pat_completeness auto

termination transform
proof (relation "inv_image (less_than <*lex*> less_than) transform_measure", goal_cases)
  case 1
  show ?case by (intro wf_inv_image wf_lex_prod wf_less_than)
next
  case (2 gen f args st G)
  then show ?case using esum_le_size_list[of args] by (simp add: transform_measure_def)
next
  case 3
  then show ?case by (simp add: transform_measure_def)
next
  case 4
  then show ?case by (simp add: transform_measure_def)
next
  case (5 gen bs body st G)
  then show ?case using bsum_le_size_list[of bs] by (simp add: transform_measure_def)
next
  case (6 gen vs st G)
  then show ?case using esum_le_size_list[of vs] by (simp add: transform_measure_def)
next
  case (7 gen f args st G)
  then show ?case using esum_le_size_list[of args] by (simp add: transform_measure_def)
next
  case (8 gen stmts st G)
  then show ?case using size_hd_begin_stmts[of stmts] by (simp add: transform_measure_def)
next
  case (9 gen stmts st G b x y)
  then show ?case
    using bsum_zip_le[of x "begin_stmts stmts"] esum_begin_stmts[of stmts]
      esum_le_size_list[of stmts]
    by (simp add: transform_measure_def)
next
  case 10
  then show ?case by (auto simp: transform_measure_def)
next
  case 11
  then show ?case by (auto simp: transform_measure_def)
next
  case 12
  then show ?case by (auto simp: transform_measure_def)
next
  case 13
  then show ?case by (auto simp: transform_measure_def)
next
  case 14
  then show ?case by (auto simp: transform_measure_def)
next
  case 15
  then show ?case by (auto simp: transform_measure_def)
next
  case 16
  then show ?case by (auto simp: transform_measure_def)
next
  case 17
  then show ?case by (auto simp: transform_measure_def)
next
  case 18
  then show ?case by (auto simp: transform_measure_def)
next
  case 19
  then show ?case by (auto simp: transform_measure_def)
qed

declare string_of_nat.simps [simp del]

subsection \<open>The Let collapser\<close>

text \<open>
  \<^verbatim>\<open>CollapseLet\<close> has no \<^verbatim>\<open>transform_Begin\<close>: the dispatch fails on a \<^verbatim>\<open>Begin\<close>.
  A \<^verbatim>\<open>Closure\<close> is returned as it is.  \<open>collapse_bindings\<close> is the loop of
  \<^verbatim>\<open>transform_Let\<close> over the bindings, \<open>collapse_list\<close> the transformation of a
  list of children in order.
\<close>

fun collapse :: "expr \<Rightarrow> error + expr"
  and collapse_list :: "expr list \<Rightarrow> error + expr list"
  and collapse_bindings :: "bindings \<Rightarrow> error + bindings" where
  "collapse (Let bs body) =
     (case collapse_bindings bs of
        Inl e \<Rightarrow> Inl e
      | Inr new_bindings \<Rightarrow>
          (case collapse body of
             Inl e \<Rightarrow> Inl e
           | Inr body' \<Rightarrow>
               (case body' of
                  Let bs2 body2 \<Rightarrow> Inr (Let (new_bindings @ bs2) body2)
                | _ \<Rightarrow> Inr (Let new_bindings body'))))"
| "collapse (Sym s) = Inr (Sym s)"
| "collapse (Value v) = Inr (Value v)"
| "collapse (Lambda args body lgen ref) =
     (case collapse body of
        Inl e \<Rightarrow> Inl e
      | Inr body' \<Rightarrow> Inr (Lambda args body' lgen ref))"
| "collapse (Apply f args) =
     (case collapse f of
        Inl e \<Rightarrow> Inl e
      | Inr f' \<Rightarrow>
          (case collapse_list args of
             Inl e \<Rightarrow> Inl e
           | Inr args' \<Rightarrow> Inr (Apply f' args')))"
| "collapse (Tuple vs) =
     (case collapse_list vs of
        Inl e \<Rightarrow> Inl e
      | Inr vs' \<Rightarrow> Inr (Tuple vs'))"
| "collapse (If c t f) =
     (case collapse c of
        Inl e \<Rightarrow> Inl e
      | Inr c' \<Rightarrow>
          (case collapse t of
             Inl e \<Rightarrow> Inl e
           | Inr t' \<Rightarrow>
               (case collapse f of
                  Inl e \<Rightarrow> Inl e
                | Inr f' \<Rightarrow> Inr (If c' t' f'))))"
| "collapse (Closure f args) = Inr (Closure f args)"
| "collapse (Begin stmts) = Inl Unrecognized"
| "collapse_list [] = Inr []"
| "collapse_list (a # args) =
     (case collapse a of
        Inl e \<Rightarrow> Inl e
      | Inr a' \<Rightarrow>
          (case collapse_list args of
             Inl e \<Rightarrow> Inl e
           | Inr args' \<Rightarrow> Inr (a' # args')))"
| "collapse_bindings [] = Inr []"
| "collapse_bindings ((s, b) # bs) =
     (case collapse b of
        Inl e \<Rightarrow> Inl e
      | Inr b' \<Rightarrow>
          (case collapse_bindings bs of
             Inl e \<Rightarrow> Inl e
           | Inr rest \<Rightarrow>
               (case b' of
                  Let bs1 body1 \<Rightarrow> Inr (bs1 @ (s, body1) # rest)
                | _ \<Rightarrow> Inr ((s, b') # rest))))"

text \<open>
  \<^verbatim>\<open>a_normal\<close>: the transformer is made with no generator (\<^verbatim>\<open>ANormalTransformer()\<close>)
  and called with the default \<^verbatim>\<open>stash=False\<close>; the collapser runs on its result.
\<close>

definition a_normal :: "expr \<Rightarrow> gens \<Rightarrow> error + expr \<times> gens" where
  "a_normal node G =
     (case transform None node NoStash G of
        Inl e \<Rightarrow> Inl e
      | Inr (node1, unused, G1) \<Rightarrow>
          (case collapse node1 of
             Inl e \<Rightarrow> Inl e
           | Inr node2 \<Rightarrow> Inr (node2, G1)))"

section \<open>Definitions used by the statements and their proofs\<close>

text \<open>
  The list \<^verbatim>\<open>self.inputs\<close> after the padding a \<^verbatim>\<open>link\<close> at position \<open>idx\<close>
  does (\<^verbatim>\<open>self.inputs += [None for _ in range(idx - nin + 1)]\<close>).
\<close>

definition pad_to :: "nat \<Rightarrow> nat option list \<Rightarrow> nat option list" where
  "pad_to idx xs = (if length xs \<le> idx then xs @ replicate (idx - length xs + 1) None else xs)"

text \<open>A store of bare nodes, and a run of mutations on it.\<close>

definition bare_store :: store where
  "bare_store = (\<lambda>_. new_node NO_VALUE)"

definition demo_graph :: irgraph where
  "demo_graph = \<lparr>ginputs = [2, 3], goutput = Some 4\<rparr>"

definition demo_mutations :: "mutation list" where
  "demo_mutations =
     [SetApp 0 (Some 1) [Some 2, Some 3],
      SetApp 4 (Some 1) [Some 0, Some 0],
      SetSucc 0 (IN 1) (Some 2),
      Redirect 0 (Some 3) [(IN 1, 4), (IN 0, 4)],
      Replace 4 (Some 0) []]"

text \<open>The node at an address after a mutation, or the error of the mutation.\<close>

definition node_of :: "error + store \<Rightarrow> nat \<Rightarrow> error + irnode" where
  "node_of res a = (case res of Inl e \<Rightarrow> Inl e | Inr h \<Rightarrow> Inr (h a))"

text \<open>
  Node 1 applies node 0 to node 0: node 0 has two users.
\<close>

definition used_store :: store where
  "used_store = bare_store
     (0 := \<lparr>fn = None, inputs = [], users = {(FN, 1), (IN 0, 1)}, nvalue = NO_VALUE\<rparr>,
      1 := \<lparr>fn = Some 0, inputs = [Some 0], users = {}, nvalue = NO_VALUE\<rparr>)"

text \<open>
  The output node 0 consumes node 1; node 1 and node 2 consume each other; nodes 10,
  11 and 12 are the constants in function position.
\<close>

definition cyc_store :: store where
  "cyc_store = bare_store
     (0 := \<lparr>fn = Some 10, inputs = [Some 1], users = {}, nvalue = NO_VALUE\<rparr>,
      1 := \<lparr>fn = Some 11, inputs = [Some 2], users = {(IN 0, 0), (IN 0, 2)}, nvalue = NO_VALUE\<rparr>,
      2 := \<lparr>fn = Some 12, inputs = [Some 1], users = {(IN 0, 1)}, nvalue = NO_VALUE\<rparr>,
      10 := \<lparr>fn = None, inputs = [], users = {(FN, 0)}, nvalue = Literal ''f''\<rparr>,
      11 := \<lparr>fn = None, inputs = [], users = {(FN, 1)}, nvalue = Literal ''g''\<rparr>,
      12 := \<lparr>fn = None, inputs = [], users = {(FN, 2)}, nvalue = Literal ''h''\<rparr>)"

definition cyc_graph :: irgraph where
  "cyc_graph = \<lparr>ginputs = [], goutput = Some 0\<rparr>"

text \<open>
  The edges of the graph: a node points to its successors, the node in function
  position and the inputs.  A graph is acyclic when this relation is.
\<close>

definition edges :: "store \<Rightarrow> (nat \<times> nat) set" where
  "edges h = {(a, b). b \<in> successors (h a)}"

text \<open>
  A graph that \<^verbatim>\<open>replace\<close> has worked on.  Nodes 10, 11 and 12 are the constants
  \<open>f\<close>, \<open>g\<close> and \<open>h\<close>, node 4 is the free input.  First \<open>1 = g(4)\<close>, \<open>5 = h(1)\<close> and
  \<open>0 = f(5)\<close> are built, then \<^verbatim>\<open>replace\<close> puts node 1 in the place of node 5, so
  that the output is \<open>0 = f(1)\<close>.  \<open>dead_store\<close> is the store after these calls:
  node 5 is no longer reachable from the output, but it keeps its forward edge to
  node 1, and node 1 keeps the entry of node 5 among its users.
\<close>

definition dead_base :: store where
  "dead_base = bare_store(10 := new_node (Literal ''f''), 11 := new_node (Literal ''g''),
                          12 := new_node (Literal ''h''))"

definition dead_graph :: irgraph where
  "dead_graph = \<lparr>ginputs = [4], goutput = Some 0\<rparr>"

definition dead_mutations :: "mutation list" where
  "dead_mutations =
     [SetApp 1 (Some 11) [Some 4], SetApp 5 (Some 12) [Some 1], SetApp 0 (Some 10) [Some 5],
      Replace 5 (Some 1) [(IN 0, 0)]]"

definition dead_store :: store where
  "dead_store = bare_store
     (0 := \<lparr>fn = Some 10, inputs = [Some 1], users = {}, nvalue = NO_VALUE\<rparr>,
      1 := \<lparr>fn = Some 11, inputs = [Some 4], users = {(IN 0, 5), (IN 0, 0)}, nvalue = NO_VALUE\<rparr>,
      4 := \<lparr>fn = None, inputs = [], users = {(IN 0, 1)}, nvalue = NO_VALUE\<rparr>,
      5 := \<lparr>fn = Some 12, inputs = [Some 1], users = {}, nvalue = NO_VALUE\<rparr>,
      10 := \<lparr>fn = None, inputs = [], users = {(FN, 0)}, nvalue = Literal ''f''\<rparr>,
      11 := \<lparr>fn = None, inputs = [], users = {(FN, 1)}, nvalue = Literal ''g''\<rparr>,
      12 := \<lparr>fn = None, inputs = [], users = {(FN, 5)}, nvalue = Literal ''h''\<rparr>)"

subsection \<open>A-normal form: what the claims speak of\<close>

text \<open>
  Modelled from the spec: a symbol is in the scope of a generator when its stamp is
  below the generator's counter, that is, when the generator could have minted it
  already.  A fresh name differs from every symbol in the scope.
\<close>

definition sym_version :: "symbol \<Rightarrow> nat" where
  "sym_version s = (case s of Symbol l v \<Rightarrow> v)"

definition in_scope :: "gens \<Rightarrow> nat \<Rightarrow> symbol \<Rightarrow> bool" where
  "in_scope G k s = (sym_version s < G k)"

text \<open>
  The claim about \<^verbatim>\<open>Begin\<close> in the words of the spec.  A leading statement is a
  statement before the last one; the last statement is the value of the \<^verbatim>\<open>Begin\<close> and
  always stays.  Without a remaining statement there is no last name for the body.
\<close>

fun drop_leading_atoms :: "expr list \<Rightarrow> expr list" where
  "drop_leading_atoms [] = []"
| "drop_leading_atoms [s] = [s]"
| "drop_leading_atoms (s # t # rest) =
     (if is_atom s then drop_leading_atoms (t # rest) else s # drop_leading_atoms (t # rest))"

text \<open>
  The names the spec has synthesized for \<open>n\<close> statements: \<open>n\<close> anonymous names
  (label \<^verbatim>\<open>_\<close>), stamped with the counter of the generator and the \<open>n - 1\<close> values
  after it, after which the counter has moved on by \<open>n\<close>.  They are written out from
  the counter, without the loop of the transformer.
\<close>

definition fresh_names :: "gens \<Rightarrow> nat \<Rightarrow> nat \<Rightarrow> symbol list" where
  "fresh_names G k n = map (\<lambda>i. Symbol (LStr ''_'') (G k + i)) [0..<n]"

definition is_anonymous :: "symbol \<Rightarrow> bool" where
  "is_anonymous s = (case s of Symbol l v \<Rightarrow> l = LStr ''_'')"

text \<open>
  What the spec says of a \<^verbatim>\<open>Begin\<close>.  With exactly one remaining statement, that
  statement is normalized under the incoming stash.  With none there is no last name
  for the body (\<^verbatim>\<open>IndexError\<close>), and a transformer without a generator cannot
  synthesize a name (\<^verbatim>\<open>TypeError\<close>).  Otherwise the \<^verbatim>\<open>Let\<close> that binds the fresh
  names to the remaining statements in order, with the last name as body, is normalized
  under the incoming stash, by a transformer whose generator has moved on by the number
  of names.
\<close>

definition begin_spec ::
  "nat option \<Rightarrow> expr list \<Rightarrow> stash \<Rightarrow> gens \<Rightarrow> error + expr \<times> bindings \<times> gens" where
  "begin_spec gen stmts st G =
     (let kept = drop_leading_atoms stmts in
      if length kept = 1 then transform gen (hd kept) st G
      else if kept = [] then Inl IndexError
      else
        case gen of
          None \<Rightarrow> Inl TypeError
        | Some k \<Rightarrow>
            let names = fresh_names G k (length kept)
            in transform gen (Let (zip names kept) (Sym (last names))) st
                 (G(k := G k + length kept)))"

text \<open>
  Every operand position of every \<^verbatim>\<open>Apply\<close>, \<^verbatim>\<open>If\<close>, \<^verbatim>\<open>Tuple\<close> and
  \<^verbatim>\<open>Closure\<close> node of a tree holds a \<^verbatim>\<open>Symbol\<close> or a \<^verbatim>\<open>Value\<close>.  An atom has no
  children, so the nodes of the tree are reached through \<^verbatim>\<open>Let\<close>, \<^verbatim>\<open>Lambda\<close>
  and \<^verbatim>\<open>Begin\<close> only.
\<close>

fun operands_atomic :: "expr \<Rightarrow> bool"
  and operands_atomic_list :: "expr list \<Rightarrow> bool"
  and operands_atomic_bindings :: "bindings \<Rightarrow> bool" where
  "operands_atomic (Apply f args) = (is_atom f \<and> list_all is_atom args)"
| "operands_atomic (Sym s) = True"
| "operands_atomic (Value v) = True"
| "operands_atomic (Let bs body) = (operands_atomic_bindings bs \<and> operands_atomic body)"
| "operands_atomic (Lambda args body lgen ref) = operands_atomic body"
| "operands_atomic (If c t f) = (is_atom c \<and> is_atom t \<and> is_atom f)"
| "operands_atomic (Tuple vs) = list_all is_atom vs"
| "operands_atomic (Closure f args) = (is_atom f \<and> list_all is_atom args)"
| "operands_atomic (Begin stmts) = operands_atomic_list stmts"
| "operands_atomic_list [] = True"
| "operands_atomic_list (e # es) = (operands_atomic e \<and> operands_atomic_list es)"
| "operands_atomic_bindings [] = True"
| "operands_atomic_bindings ((s, b) # bs) = (operands_atomic b \<and> operands_atomic_bindings bs)"

text \<open>The same, for a tree without \<^verbatim>\<open>Begin\<close>: the shape the transformer produces.\<close>

fun normal_shape :: "expr \<Rightarrow> bool"
  and normal_bindings :: "bindings \<Rightarrow> bool" where
  "normal_shape (Apply f args) = (is_atom f \<and> list_all is_atom args)"
| "normal_shape (Sym s) = True"
| "normal_shape (Value v) = True"
| "normal_shape (Let bs body) = (normal_bindings bs \<and> normal_shape body)"
| "normal_shape (Lambda args body lgen ref) = normal_shape body"
| "normal_shape (If c t f) = (is_atom c \<and> is_atom t \<and> is_atom f)"
| "normal_shape (Tuple vs) = list_all is_atom vs"
| "normal_shape (Closure f args) = (is_atom f \<and> list_all is_atom args)"
| "normal_shape (Begin stmts) = False"
| "normal_bindings [] = True"
| "normal_bindings ((s, b) # bs) = (normal_shape b \<and> normal_bindings bs)"

text \<open>
  What a call of the transformer returns: a tree of that shape and, under a stash,
  an atom and an accumulator extended by bindings of that shape.
\<close>

definition shape_ok :: "stash \<Rightarrow> expr \<Rightarrow> bindings \<Rightarrow> bool" where
  "shape_ok st r acc' =
     (normal_shape r \<and>
      (case st of
         NoStash \<Rightarrow> acc' = []
       | Stash n acc \<Rightarrow> is_atom r \<and> (\<exists>new. acc' = acc @ new \<and> normal_bindings new)))"

definition tags_ok :: "string option list option \<Rightarrow> bool" where
  "tags_ok tags = (case tags of None \<Rightarrow> True | Some ts \<Rightarrow> None \<notin> set ts)"

text \<open>
  Flatness: in no \<^verbatim>\<open>Let\<close> node of the tree is a binding value or the body a
  \<^verbatim>\<open>Let\<close>.
\<close>

fun flat :: "expr \<Rightarrow> bool"
  and flat_list :: "expr list \<Rightarrow> bool"
  and flat_bindings :: "bindings \<Rightarrow> bool" where
  "flat (Let bs body) = (flat_bindings bs \<and> \<not> is_Let body \<and> flat body)"
| "flat (Apply f args) = (flat f \<and> flat_list args)"
| "flat (Sym s) = True"
| "flat (Value v) = True"
| "flat (Lambda args body lgen ref) = flat body"
| "flat (If c t f) = (flat c \<and> flat t \<and> flat f)"
| "flat (Tuple vs) = flat_list vs"
| "flat (Closure f args) = (flat f \<and> flat_list args)"
| "flat (Begin stmts) = flat_list stmts"
| "flat_list [] = True"
| "flat_list (e # es) = (flat e \<and> flat_list es)"
| "flat_bindings [] = True"
| "flat_bindings ((s, b) # bs) = (\<not> is_Let b \<and> flat b \<and> flat_bindings bs)"

text \<open>
  The splicing of the collapser in the words of the spec: a binding whose collapsed
  right-hand side is a \<^verbatim>\<open>Let\<close> becomes the bindings of that \<^verbatim>\<open>Let\<close> followed by
  the binding of its body; a collapsed body that is a \<^verbatim>\<open>Let\<close> hands its bindings to
  the outer list and its body to the result.
\<close>

definition splice :: "symbol \<Rightarrow> expr \<Rightarrow> bindings" where
  "splice s b = (case b of Let bs v \<Rightarrow> bs @ [(s, v)] | _ \<Rightarrow> [(s, b)])"

definition merge_body :: "bindings \<Rightarrow> expr \<Rightarrow> expr" where
  "merge_body bs body = (case body of Let bs2 body2 \<Rightarrow> Let (bs @ bs2) body2 | _ \<Rightarrow> Let bs body)"

text \<open>Sample symbols and trees.\<close>

definition sf :: symbol where "sf = Symbol (LStr ''f'') 0"

definition sg :: symbol where "sg = Symbol (LStr ''g'') 0"

definition sx :: symbol where "sx = Symbol (LStr ''x'') 0"

definition sp :: symbol where "sp = Symbol (LStr ''p'') 0"

definition sample_lambda :: expr where
  "sample_lambda =
     Lambda [sx]
       (If (Apply (Sym sp) [Sym sx])
           (Tuple [Apply (Sym sf) [Sym sx], Value 1])
           (Begin [Apply (Sym sg) [Sym sx], Sym sx, Closure (Sym sf) [Apply (Sym sg) [Sym sx]]]))
       0 0"

definition sample_begin :: expr where
  "sample_begin = Begin [Apply (Sym sg) [Sym sx], Sym sx, Apply (Sym sf) [Sym sx]]"

definition sample_bindings :: bindings where
  "sample_bindings = [(sf, Let [(sg, Value 1)] (Sym sg)), (sx, Value 3)]"

definition sample_body :: expr where
  "sample_body = Let [(sp, Value 2)] (Sym sp)"

section \<open>The IR graph: proofs\<close>

subsection \<open>What one operation does\<close>

lemma forward_fn_upd [simp]:
  "forward (n\<lparr>fn := x\<rparr>) r = (if r = FN then x else forward n r)"
  by (cases r) (auto simp: forward_def)

lemma forward_users_upd [simp]: "forward (n\<lparr>users := u\<rparr>) r = forward n r"
  by (cases r) (auto simp: forward_def)

lemma forward_inputs_clear:
  "idx < length (inputs n) \<Longrightarrow>
   forward (n\<lparr>inputs := (inputs n)[idx := None]\<rparr>) r = (if r = IN idx then None else forward n r)"
  by (cases r) (auto simp: forward_def nth_list_update)

lemma nth_pad:
  "j < length xs + k \<Longrightarrow> (xs @ replicate k None) ! j = (if j < length xs then xs ! j else None)"
  by (simp add: nth_append)

lemma length_pad_to: "length (pad_to idx xs) = max (length xs) (Suc idx)"
  by (simp add: pad_to_def)

lemma nth_pad_to:
  "j < length (pad_to idx xs) \<Longrightarrow> pad_to idx xs ! j = (if j < length xs then xs ! j else None)"
  unfolding pad_to_def using nth_pad[of j xs "idx - length xs + 1"]
  by (simp del: replicate.simps replicate_Suc split: if_splits)

lemma forward_inputs_set:
  "forward (n\<lparr>inputs := (pad_to idx (inputs n))[idx := Some b]\<rparr>) r
   = (if r = IN idx then Some b else forward n r)"
proof (cases r)
  case FN
  then show ?thesis by (simp add: forward_def)
next
  case (IN j)
  show ?thesis
  proof (cases "j = idx")
    case True
    then show ?thesis using IN by (simp add: forward_def length_pad_to)
  next
    case False
    then show ?thesis using IN nth_pad_to[of j idx "inputs n"]
      by (auto simp: forward_def length_pad_to)
  qed
qed

lemma link_effect:
  assumes "process_operation h (Link self node r) = Inr h'"
  shows "forward (h self) r = None"
    and "forward (h' a) q = (if a = self \<and> q = r then Some node else forward (h a) q)"
    and "users (h' b) = (if b = node then insert (r, self) (users (h b)) else users (h b))"
proof -
  show "forward (h self) r = None"
  proof (cases r)
    case FN
    with assms show ?thesis by (auto simp: process_operation_def forward_def split: if_splits)
  next
    case (IN idx)
    with assms have "pad_to idx (inputs (h self)) ! idx = None"
      by (auto simp: process_operation_def Let_def pad_to_def simp del: replicate.simps replicate_Suc split: if_splits)
    then show ?thesis using IN nth_pad_to[of idx idx "inputs (h self)"]
      by (auto simp: forward_def length_pad_to)
  qed
  show "forward (h' a) q = (if a = self \<and> q = r then Some node else forward (h a) q)"
  proof (cases r)
    case FN
    with assms show ?thesis
      by (auto simp: process_operation_def add_user_def split: if_splits)
  next
    case (IN idx)
    with assms have "h' = add_user (h(self := (h self)\<lparr>inputs := (pad_to idx (inputs (h self)))[idx := Some node]\<rparr>)) node (r, self)"
      by (simp add: process_operation_def Let_def pad_to_def del: replicate.simps replicate_Suc split: if_splits)
    then show ?thesis using IN
      by (simp add: add_user_def forward_inputs_set)
  qed
  show "users (h' b) = (if b = node then insert (r, self) (users (h b)) else users (h b))"
    using assms by (cases r) (auto simp: process_operation_def add_user_def Let_def split: if_splits)
qed

lemma unlink_effect:
  assumes "process_operation h (Unlink self node r) = Inr h'"
  shows "forward (h self) r = Some node"
    and "(r, self) \<in> users (h node)"
    and "forward (h' a) q = (if a = self \<and> q = r then None else forward (h a) q)"
    and "users (h' b) = (if b = node then users (h b) - {(r, self)} else users (h b))"
proof -
  show "forward (h self) r = Some node"
    using assms by (cases r) (auto simp: process_operation_def forward_def split: if_splits)
  show "(r, self) \<in> users (h node)"
    using assms by (cases r) (auto simp: process_operation_def remove_user_def split: if_splits)
  show "forward (h' a) q = (if a = self \<and> q = r then None else forward (h a) q)"
  proof (cases r)
    case FN
    with assms show ?thesis
      by (auto simp: process_operation_def remove_user_def split: if_splits)
  next
    case (IN idx)
    with assms have lt: "idx < length (inputs (h self))"
      and h': "remove_user (h(self := (h self)\<lparr>inputs := (inputs (h self))[idx := None]\<rparr>)) node (r, self) = Inr h'"
      by (auto simp: process_operation_def split: if_splits)
    from h' show ?thesis using IN forward_inputs_clear[OF lt, of q]
      by (auto simp: remove_user_def split: if_splits)
  qed
  show "users (h' b) = (if b = node then users (h b) - {(r, self)} else users (h b))"
    using assms by (cases r) (auto simp: process_operation_def remove_user_def split: if_splits)
qed

lemma edge_symD: "edge_sym h \<Longrightarrow> (forward (h a) r = Some b) = ((r, a) \<in> users (h b))"
  by (simp add: edge_sym_def)

lemma process_operation_edge_sym:
  assumes "edge_sym h" and "process_operation h oper = Inr h'"
  shows "edge_sym h'"
proof (cases oper)
  case (Link self node r)
  note eff = link_effect[OF assms(2)[unfolded Link]]
  have none: "(r, self) \<notin> users (h b)" for b
    using edge_symD[OF assms(1), of self r b] eff(1) by simp
  show ?thesis unfolding edge_sym_def
  proof (intro allI)
    fix a q b
    show "(forward (h' a) q = Some b) = ((q, a) \<in> users (h' b))"
      using edge_symD[OF assms(1), of a q b] none[of b]
      by (simp add: eff(2) eff(3)) blast
  qed
next
  case (Unlink self node r)
  note eff = unlink_effect[OF assms(2)[unfolded Unlink]]
  have uniq: "b = node" if "(r, self) \<in> users (h b)" for b
    using edge_symD[OF assms(1), of self r b] eff(1) that by simp
  show ?thesis unfolding edge_sym_def
  proof (intro allI)
    fix a q b
    show "(forward (h' a) q = Some b) = ((q, a) \<in> users (h' b))"
      using edge_symD[OF assms(1), of a q b] uniq[of b]
      by (simp add: eff(3) eff(4)) blast
  qed
next
  case (RedirectOp self node)
  with assms show ?thesis by (simp add: process_operation_def)
qed

lemma link_fields:
  assumes "process_operation h (Link self node r) = Inr h'"
  shows "fn (h' x) = (if x = self \<and> r = FN then Some node else fn (h x))"
    and "inputs (h' x) =
           (if x = self
            then (case r of FN \<Rightarrow> inputs (h x)
                  | IN idx \<Rightarrow> (pad_to idx (inputs (h x)))[idx := Some node])
            else inputs (h x))"
  using assms
  by (cases r; auto simp: process_operation_def add_user_def Let_def pad_to_def
        simp del: replicate.simps replicate_Suc split: if_splits)+

lemma unlink_fields:
  assumes "process_operation h (Unlink self node r) = Inr h'"
  shows "fn (h' x) = (if x = self \<and> r = FN then None else fn (h x))"
    and "inputs (h' x) =
           (if x = self
            then (case r of FN \<Rightarrow> inputs (h x) | IN idx \<Rightarrow> (inputs (h x))[idx := None])
            else inputs (h x))"
  using assms
  by (cases r; auto simp: process_operation_def remove_user_def split: if_splits)+

lemma link_ok:
  assumes "forward (h self) r = None"
  shows "\<exists>h'. process_operation h (Link self node r) = Inr h'"
proof (cases r)
  case FN
  with assms show ?thesis by (simp add: process_operation_def forward_def)
next
  case (IN idx)
  have "pad_to idx (inputs (h self)) ! idx = None"
    using assms IN nth_pad_to[of idx idx "inputs (h self)"]
    by (auto simp: forward_def length_pad_to split: if_splits)
  then show ?thesis using IN
    by (simp add: process_operation_def Let_def pad_to_def del: replicate.simps replicate_Suc)
qed

lemma unlink_ok:
  assumes "forward (h self) r = Some node" and "(r, self) \<in> users (h node)"
  shows "\<exists>h'. process_operation h (Unlink self node r) = Inr h'"
  using assms
  by (cases r) (auto simp: process_operation_def forward_def remove_user_def split: if_splits)

lemma commit_append:
  "commit h (xs @ ys) = (case commit h xs of Inl e \<Rightarrow> Inl e | Inr h' \<Rightarrow> commit h' ys)"
  by (induction xs arbitrary: h) (auto split: sum.splits)

subsection \<open>Edge symmetry is an invariant\<close>

lemma commit_edge_sym:
  "edge_sym h \<Longrightarrow> commit h opers = Inr h' \<Longrightarrow> edge_sym h'"
proof (induction opers arbitrary: h)
  case Nil
  then show ?case by simp
next
  case (Cons oper opers)
  then show ?case
    by (auto split: sum.splits dest: process_operation_edge_sym)
qed

lemma mutate_edge_sym:
  assumes "edge_sym (fst hg)" and "mutate hg m = Inr hg'"
  shows "edge_sym (fst hg')"
  using assms
  by (cases m)
     (auto simp: mutate_def set_succ_def set_app_def redirect_def replace_def
           split: sum.splits dest: commit_edge_sym)

lemma edge_sym_bare: "edge_sym bare_store"
  unfolding edge_sym_def bare_store_def
proof (intro allI)
  fix a r b
  show "(forward (new_node NO_VALUE) r = Some b) = ((r, a) \<in> users (new_node NO_VALUE))"
    by (cases r) (simp_all add: forward_def new_node_def)
qed

lemmas run_defs =
  mutate_def set_app_def set_succ_def redirect_def replace_def set_app_operations_def
  set_succ_operations_def redirect_operations_def get_succ_def link_to_def unlink_inputs_def
  link_inputs_def process_operation_def add_user_def remove_user_def Let_def enumerate_eq_zip

lemma demo_run:
  "\<exists>h' g'. mutate_all (bare_store, demo_graph) demo_mutations = Inr (h', g')
       \<and> fn (h' 4) = Some 1 \<and> inputs (h' 4) = [Some 3, Some 3]
       \<and> inputs (h' 0) = [Some 2, Some 2] \<and> goutput g' = Some 0"
  by (simp add: demo_mutations_def demo_graph_def bare_store_def new_node_def run_defs)

lemma mutate_all_edge_sym:
  "edge_sym (fst hg) \<Longrightarrow> mutate_all hg ms = Inr hg' \<Longrightarrow> edge_sym (fst hg')"
proof (induction ms arbitrary: hg)
  case Nil
  then show ?case by simp
next
  case (Cons m ms)
  from Cons.prems(2) obtain hg1 where m1: "mutate hg m = Inr hg1"
    and rest: "mutate_all hg1 ms = Inr hg'"
    by (auto split: sum.splits)
  have "edge_sym (fst hg1)" by (rule mutate_edge_sym[OF Cons.prems(1) m1])
  then show ?case using rest by (rule Cons.IH)
qed

text \<open>
  C1.  Edge symmetry is an invariant of every sequence of mutations (\<^verbatim>\<open>set_succ\<close>,
  \<^verbatim>\<open>set_app\<close>, \<^verbatim>\<open>redirect\<close>, \<^verbatim>\<open>replace\<close>) that completes: if \<open>A\<close> has the
  forward edge \<open>(r, B)\<close> exactly when \<open>(r, A)\<close> is in the users of \<open>B\<close> before the
  sequence, the same holds after it.  The users are a set, so the entry is there
  exactly once.
\<close>

theorem edge_symmetry_preserved:
  "edge_sym h \<Longrightarrow> mutate_all (h, g) ms = Inr (h', g') \<Longrightarrow> edge_sym h'"
  using mutate_all_edge_sym[of "(h, g)" ms "(h', g')"] by simp

theorem edge_symmetry_preserved_witness:
  "edge_sym bare_store \<and>
   (\<exists>h' g'. mutate_all (bare_store, demo_graph) demo_mutations = Inr (h', g') \<and> edge_sym h')"
proof -
  from demo_run obtain h' g'
    where run: "mutate_all (bare_store, demo_graph) demo_mutations = Inr (h', g')"
    by blast
  from edge_symmetry_preserved[OF edge_sym_bare run] run edge_sym_bare
  show ?thesis by blast
qed

subsection \<open>\<^verbatim>\<open>set_app\<close>\<close>

text \<open>
  The three phases of \<^verbatim>\<open>set_app\<close> with a function node: the function edge, the
  unlinking of every current input, the linking of every new one.
\<close>

lemma unlink_from:
  assumes "edge_sym h" and "inputs (h a) = pre @ ys"
  shows "\<exists>h'. commit h (concat (map (\<lambda>(i, inp). case inp of None \<Rightarrow> [] | Some b \<Rightarrow> [Unlink a b (IN i)])
                                    (enumerate (length pre) ys))) = Inr h'
              \<and> edge_sym h'
              \<and> inputs (h' a) = pre @ replicate (length ys) None
              \<and> (\<forall>x. fn (h' x) = fn (h x))
              \<and> (\<forall>x. x \<noteq> a \<longrightarrow> inputs (h' x) = inputs (h x))"
  using assms
proof (induction ys arbitrary: pre h)
  case Nil
  then show ?case by simp
next
  case (Cons y ys)
  show ?case
  proof (cases y)
    case None
    from Cons.prems(2) None have "inputs (h a) = (pre @ [None]) @ ys" by simp
    from Cons.IH[OF Cons.prems(1) this] show ?thesis using None
      by (simp add: replicate_append_same)
  next
    case (Some b)
    let ?k = "length pre"
    from Cons.prems(2) Some have fw: "forward (h a) (IN ?k) = Some b"
      by (simp add: forward_def)
    with Cons.prems(1) have us: "(IN ?k, a) \<in> users (h b)"
      by (simp add: edge_symD)
    from unlink_ok[of h a "IN ?k" b, OF fw us] obtain h1 where
      h1: "process_operation h (Unlink a b (IN ?k)) = Inr h1" by blast
    have es1: "edge_sym h1" by (rule process_operation_edge_sym[OF Cons.prems(1) h1])
    have in1: "inputs (h1 a) = (pre @ [None]) @ ys"
      using unlink_fields(2)[OF h1, of a] Cons.prems(2) Some by simp
    from Cons.IH[OF es1 in1] obtain h' where
      c: "commit h1 (concat (map (\<lambda>(i, inp). case inp of None \<Rightarrow> [] | Some b \<Rightarrow> [Unlink a b (IN i)])
                                    (enumerate (length (pre @ [None])) ys))) = Inr h'"
      and r: "edge_sym h'" "inputs (h' a) = (pre @ [None]) @ replicate (length ys) None"
         "\<forall>x. fn (h' x) = fn (h1 x)" "\<forall>x. x \<noteq> a \<longrightarrow> inputs (h' x) = inputs (h1 x)"
      by blast
    have "\<forall>x. fn (h1 x) = fn (h x)" using unlink_fields(1)[OF h1] by simp
    moreover have "\<forall>x. x \<noteq> a \<longrightarrow> inputs (h1 x) = inputs (h x)"
      using unlink_fields(2)[OF h1] by simp
    ultimately show ?thesis using c r h1 Some
      by (simp add: replicate_append_same)
  qed
qed

lemma link_from:
  assumes "\<forall>j\<ge>k. forward (h a) (IN j) = None"
  shows "\<exists>h'. commit h (concat (map (\<lambda>(i, inp). case inp of None \<Rightarrow> [] | Some b \<Rightarrow> [Link a b (IN i)])
                                    (enumerate k ys))) = Inr h'
              \<and> (\<forall>x. fn (h' x) = fn (h x))
              \<and> (\<forall>x. x \<noteq> a \<longrightarrow> inputs (h' x) = inputs (h x))
              \<and> (\<forall>j. forward (h' a) (IN j) =
                       (if k \<le> j \<and> j < k + length ys then ys ! (j - k) else forward (h a) (IN j)))
              \<and> length (inputs (h a)) \<le> length (inputs (h' a))
              \<and> length (inputs (h' a)) \<le> max (length (inputs (h a))) (k + length ys)
              \<and> (ys \<noteq> [] \<and> last ys \<noteq> None \<longrightarrow> k + length ys \<le> length (inputs (h' a)))"
  using assms
proof (induction ys arbitrary: k h)
  case Nil
  then show ?case by auto
next
  case (Cons y ys)
  show ?case
  proof (cases y)
    case None
    from Cons.prems have free: "\<forall>j\<ge>Suc k. forward (h a) (IN j) = None" by simp
    from Cons.IH[of "Suc k" h, OF free] obtain h' where
      c: "commit h (concat (map (\<lambda>(i, inp). case inp of None \<Rightarrow> [] | Some b \<Rightarrow> [Link a b (IN i)])
                                    (enumerate (Suc k) ys))) = Inr h'"
      and r: "\<forall>x. fn (h' x) = fn (h x)" "\<forall>x. x \<noteq> a \<longrightarrow> inputs (h' x) = inputs (h x)"
        "\<forall>j. forward (h' a) (IN j) =
              (if Suc k \<le> j \<and> j < Suc k + length ys then ys ! (j - Suc k) else forward (h a) (IN j))"
        "length (inputs (h a)) \<le> length (inputs (h' a))"
        "length (inputs (h' a)) \<le> max (length (inputs (h a))) (Suc k + length ys)"
        "ys \<noteq> [] \<and> last ys \<noteq> None \<longrightarrow> Suc k + length ys \<le> length (inputs (h' a))"
      by blast
    have fw: "forward (h' a) (IN j) =
              (if k \<le> j \<and> j < k + length (y # ys) then (y # ys) ! (j - k) else forward (h a) (IN j))" for j
    proof (cases "j = k")
      case True
      then show ?thesis using r(3) None Cons.prems by simp
    next
      case False
      then show ?thesis using r(3) by (auto simp: nth_Cons')
    qed
    have lst: "(y # ys) \<noteq> [] \<and> last (y # ys) \<noteq> None \<longrightarrow> k + length (y # ys) \<le> length (inputs (h' a))"
      using r(6) None by auto
    from c r(1,2,4,5) fw lst show ?thesis using None by simp
  next
    case (Some b)
    from Cons.prems have "forward (h a) (IN k) = None" by simp
    from link_ok[of h a "IN k" b, OF this] obtain h1 where
      h1: "process_operation h (Link a b (IN k)) = Inr h1" by blast
    note eff = link_effect[OF h1] link_fields[OF h1]
    have free: "\<forall>j\<ge>Suc k. forward (h1 a) (IN j) = None"
      using eff(2)[of a] Cons.prems by simp
    from Cons.IH[of "Suc k" h1, OF free] obtain h' where
      c: "commit h1 (concat (map (\<lambda>(i, inp). case inp of None \<Rightarrow> [] | Some b \<Rightarrow> [Link a b (IN i)])
                                    (enumerate (Suc k) ys))) = Inr h'"
      and r: "\<forall>x. fn (h' x) = fn (h1 x)" "\<forall>x. x \<noteq> a \<longrightarrow> inputs (h' x) = inputs (h1 x)"
        "\<forall>j. forward (h' a) (IN j) =
              (if Suc k \<le> j \<and> j < Suc k + length ys then ys ! (j - Suc k) else forward (h1 a) (IN j))"
        "length (inputs (h1 a)) \<le> length (inputs (h' a))"
        "length (inputs (h' a)) \<le> max (length (inputs (h1 a))) (Suc k + length ys)"
        "ys \<noteq> [] \<and> last ys \<noteq> None \<longrightarrow> Suc k + length ys \<le> length (inputs (h' a))"
      by blast
    have len1: "length (inputs (h1 a)) = max (length (inputs (h a))) (Suc k)"
      using eff(5)[of a] by (simp add: length_pad_to)
    have fw: "forward (h' a) (IN j) =
              (if k \<le> j \<and> j < k + length (y # ys) then (y # ys) ! (j - k) else forward (h a) (IN j))" for j
    proof (cases "j = k")
      case True
      then show ?thesis using r(3) Some eff(2)[of a "IN k"] by simp
    next
      case False
      then show ?thesis using r(3) eff(2)[of a "IN j"] by (auto simp: nth_Cons')
    qed
    have f1: "\<forall>x. fn (h' x) = fn (h x)" using r(1) eff(4) by simp
    have i1: "\<forall>x. x \<noteq> a \<longrightarrow> inputs (h' x) = inputs (h x)" using r(2) eff(5) by simp
    have l1: "length (inputs (h a)) \<le> length (inputs (h' a))" using r(4) len1 by simp
    have l2: "length (inputs (h' a)) \<le> max (length (inputs (h a))) (k + length (y # ys))"
      using r(5) len1 by auto
    have l3: "(y # ys) \<noteq> [] \<and> last (y # ys) \<noteq> None \<longrightarrow> k + length (y # ys) \<le> length (inputs (h' a))"
      using r(6) r(4) len1 by (cases "ys = []") auto
    from c h1 f1 i1 fw l1 l2 l3 show ?thesis using Some by simp
  qed
qed

lemma set_fn_phase:
  assumes "edge_sym h"
  shows "\<exists>opers h1. set_succ_operations h a FN f = Inr opers \<and> commit h opers = Inr h1
           \<and> edge_sym h1 \<and> fn (h1 a) = f
           \<and> (\<forall>x. inputs (h1 x) = inputs (h x))
           \<and> (\<forall>x. x \<noteq> a \<longrightarrow> fn (h1 x) = fn (h x))"
proof (cases "fn (h a)")
  case None
  show ?thesis
  proof (cases f)
    case fNone: None
    with None assms show ?thesis
      by (simp add: set_succ_operations_def get_succ_def link_to_def)
  next
    case (Some n)
    from None have "forward (h a) FN = None" by (simp add: forward_def)
    from link_ok[of h a FN n, OF this] obtain h1 where
      h1: "process_operation h (Link a n FN) = Inr h1" by blast
    have "edge_sym h1" by (rule process_operation_edge_sym[OF assms h1])
    then show ?thesis using None Some h1 link_fields[OF h1]
      by (simp add: set_succ_operations_def get_succ_def link_to_def)
  qed
next
  case (Some u)
  show ?thesis
  proof (cases "f = Some u")
    case True
    with Some assms show ?thesis
      by (simp add: set_succ_operations_def get_succ_def)
  next
    case False
    from Some have fw: "forward (h a) FN = Some u" by (simp add: forward_def)
    with assms have "(FN, a) \<in> users (h u)" by (simp add: edge_symD)
    from unlink_ok[of h a FN u, OF fw this] obtain h1 where
      h1: "process_operation h (Unlink a u FN) = Inr h1" by blast
    have es1: "edge_sym h1" by (rule process_operation_edge_sym[OF assms h1])
    note f1 = unlink_fields[OF h1]
    show ?thesis
    proof (cases f)
      case None
      then show ?thesis using Some False h1 es1 f1
        by (simp add: set_succ_operations_def get_succ_def link_to_def)
    next
      case fSome: (Some n)
      have "forward (h1 a) FN = None" using f1(1)[of a] by (simp add: forward_def)
      from link_ok[of h1 a FN n, OF this] obtain h2 where
        h2: "process_operation h1 (Link a n FN) = Inr h2" by blast
      have "edge_sym h2" by (rule process_operation_edge_sym[OF es1 h2])
      then show ?thesis using Some False fSome h1 h2 f1 link_fields[OF h2]
        by (simp add: set_succ_operations_def get_succ_def link_to_def)
    qed
  qed
qed

lemma forward_inputs_eq:
  assumes "length xs = length (inputs n)"
    and "\<And>i. forward n (IN i) = (if i < length xs then xs ! i else None)"
  shows "inputs n = xs"
proof (rule nth_equalityI)
  show "length (inputs n) = length xs" using assms(1) by simp
next
  fix i assume "i < length (inputs n)"
  then show "inputs n ! i = xs ! i"
    using assms(2)[of i] assms(1) by (simp add: forward_def)
qed

text \<open>
  C7, as the code has it.  On a store with symmetric edges \<^verbatim>\<open>set_app(fn, inputs)\<close>
  completes, keeps the edges symmetric, sets the function edge to \<open>fn\<close> and leaves
  every other node's forward edges alone.  With \<open>fn = None\<close> the inputs of the node
  stay as they were (the input lists are only rewritten under \<^verbatim>\<open>if fn:\<close>).  With
  a function node, argument position \<open>i\<close> holds \<open>inputs[i]\<close> for every \<open>i\<close> below
  the length of the given list and no edge beyond it; the list \<^verbatim>\<open>self.inputs\<close> is
  the given list itself when the old list was not longer and the given list does not
  end in \<^verbatim>\<open>None\<close>.
\<close>

theorem set_app_retargets:
  assumes "edge_sym h"
  shows "\<exists>h'. set_app h a f ins = Inr h' \<and> edge_sym h' \<and> fn (h' a) = f \<and>
           (\<forall>x. x \<noteq> a \<longrightarrow> fn (h' x) = fn (h x) \<and> inputs (h' x) = inputs (h x)) \<and>
           (f = None \<longrightarrow> inputs (h' a) = inputs (h a)) \<and>
           (f \<noteq> None \<longrightarrow>
              (\<forall>i. forward (h' a) (IN i) = (if i < length ins then ins ! i else None)) \<and>
              (length (inputs (h a)) \<le> length ins \<and> (ins = [] \<or> last ins \<noteq> None)
                 \<longrightarrow> inputs (h' a) = ins))"
proof -
  from set_fn_phase[OF assms, of a f] obtain opers h1 where
    o1: "set_succ_operations h a FN f = Inr opers" and c1: "commit h opers = Inr h1"
    and es1: "edge_sym h1" and fn1: "fn (h1 a) = f"
    and in1: "\<forall>x. inputs (h1 x) = inputs (h x)"
    and ot1: "\<forall>x. x \<noteq> a \<longrightarrow> fn (h1 x) = fn (h x)"
    by blast
  show ?thesis
  proof (cases f)
    case None
    then show ?thesis using o1 c1 es1 fn1 in1 ot1
      by (simp add: set_app_def set_app_operations_def)
  next
    case (Some n)
    have "inputs (h1 a) = [] @ inputs (h a)" using in1 by simp
    from unlink_from[OF es1 this] obtain h2 where
      c2: "commit h1 (unlink_inputs a (inputs (h a))) = Inr h2"
      and es2: "edge_sym h2"
      and in2: "inputs (h2 a) = replicate (length (inputs (h a))) None"
      and fn2: "\<forall>x. fn (h2 x) = fn (h1 x)"
      and ot2: "\<forall>x. x \<noteq> a \<longrightarrow> inputs (h2 x) = inputs (h1 x)"
      by (auto simp: unlink_inputs_def)
    have free: "\<forall>j\<ge>0. forward (h2 a) (IN j) = None"
      using in2 by (simp add: forward_def)
    from link_from[of 0 h2 a ins, OF free] obtain h3 where
      c3: "commit h2 (link_inputs a ins) = Inr h3"
      and fn3: "\<forall>x. fn (h3 x) = fn (h2 x)"
      and ot3: "\<forall>x. x \<noteq> a \<longrightarrow> inputs (h3 x) = inputs (h2 x)"
      and fw3: "\<forall>j. forward (h3 a) (IN j) =
                     (if 0 \<le> j \<and> j < 0 + length ins then ins ! (j - 0) else forward (h2 a) (IN j))"
      and l1: "length (inputs (h2 a)) \<le> length (inputs (h3 a))"
      and l2: "length (inputs (h3 a)) \<le> max (length (inputs (h2 a))) (0 + length ins)"
      and l3: "ins \<noteq> [] \<and> last ins \<noteq> None \<longrightarrow> 0 + length ins \<le> length (inputs (h3 a))"
      by (auto simp: link_inputs_def)
    have run: "set_app h a f ins = Inr h3"
      using Some o1 c1 c2 c3
      by (simp add: set_app_def set_app_operations_def commit_append)
    have es3: "edge_sym h3" by (rule commit_edge_sym[OF es2 c3])
    have fw: "forward (h3 a) (IN i) = (if i < length ins then ins ! i else None)" for i
      using fw3 free by simp
    have exact: "inputs (h3 a) = ins"
      if "length (inputs (h a)) \<le> length ins" and "ins = [] \<or> last ins \<noteq> None"
    proof (rule forward_inputs_eq)
      show "length ins = length (inputs (h3 a))"
        using that l1 l2 l3 in2 by (cases "ins = []") auto
    next
      fix i show "forward (h3 a) (IN i) = (if i < length ins then ins ! i else None)"
        by (rule fw)
    qed
    have fnr: "fn (h3 a) = f" using fn3 fn2 fn1 by simp
    have others: "\<forall>x. x \<noteq> a \<longrightarrow> fn (h3 x) = fn (h x) \<and> inputs (h3 x) = inputs (h x)"
      using fn3 fn2 ot1 ot3 ot2 in1 by simp
    from run es3 fnr others fw exact Some show ?thesis by auto
  qed
qed

theorem set_app_retargets_witness:
  "edge_sym bare_store \<and>
   (\<exists>h'. set_app bare_store 0 (Some 1) [Some 2, Some 3] = Inr h' \<and> edge_sym h' \<and>
         fn (h' 0) = Some 1 \<and> inputs (h' 0) = [Some 2, Some 3])"
proof -
  from set_app_retargets[OF edge_sym_bare, of 0 "Some 1" "[Some 2, Some 3]"]
  obtain h' where "set_app bare_store 0 (Some 1) [Some 2, Some 3] = Inr h'" "edge_sym h'"
    "fn (h' 0) = Some 1"
    "length (inputs (bare_store 0)) \<le> length [Some (2::nat), Some 3]
       \<and> ([Some (2::nat), Some 3] = [] \<or> last [Some (2::nat), Some 3] \<noteq> None)
     \<longrightarrow> inputs (h' 0) = [Some 2, Some 3]"
    by auto
  then show ?thesis using edge_sym_bare
    by (auto simp: bare_store_def new_node_def)
qed

text \<open>
  The claim as stated fails for \<open>fn = None\<close>: the node keeps its (empty) inputs
  although the list \<open>[n1]\<close> was given.
\<close>

theorem set_app_none_counterexample:
  "node_of (set_app bare_store 0 None [Some 1]) 0 = Inr (new_node NO_VALUE)"
  by (simp add: node_of_def bare_store_def new_node_def run_defs)

text \<open>The list is never shortened: the old positions stay, holding \<^verbatim>\<open>None\<close>.\<close>

lemma set_app_shorter_list:
  "node_of (set_app (bare_store(0 := \<lparr>fn = None, inputs = [None, None], users = {}, nvalue = NO_VALUE\<rparr>))
              0 (Some 1) [Some 2]) 0
   = Inr \<lparr>fn = Some 1, inputs = [Some 2, None], users = {}, nvalue = NO_VALUE\<rparr>"
  by (simp add: node_of_def bare_store_def new_node_def run_defs)

subsection \<open>\<^verbatim>\<open>redirect\<close>\<close>

lemma redirect_loop_users:
  assumes "edge_sym h" and "a \<noteq> b" and "set us \<subseteq> users (h a)"
  shows "redirect_loop h (Some b) us
         = Inr (concat (map (\<lambda>(r, c). [Unlink c a r, Link c b r]) us))"
  using assms(3)
proof (induction us)
  case Nil
  then show ?case by simp
next
  case (Cons e us)
  obtain r c where e: "e = (r, c)" by (cases e)
  with Cons.prems have "(r, c) \<in> users (h a)" by simp
  with assms(1) have fw: "forward (h c) r = Some a" by (simp add: edge_symD)
  then have "get_succ (h c) r = Inr (Some a)"
    by (cases r) (auto simp: forward_def get_succ_def split: if_splits)
  then have "set_succ_operations h c r (Some b) = Inr [Unlink c a r, Link c b r]"
    using assms(2) by (simp add: set_succ_operations_def link_to_def)
  then show ?case using Cons e by simp
qed

lemma redirect_commit:
  assumes "edge_sym h" and "a \<noteq> b" and "distinct us" and "set us \<subseteq> users (h a)"
  shows "\<exists>h'. commit h (concat (map (\<lambda>(r, c). [Unlink c a r, Link c b r]) us)) = Inr h'
           \<and> edge_sym h'
           \<and> (\<forall>c r. forward (h' c) r = (if (r, c) \<in> set us then Some b else forward (h c) r))
           \<and> (\<forall>x. length (inputs (h' x)) = length (inputs (h x)))
           \<and> users (h' a) = users (h a) - set us"
  using assms(1,3,4)
proof (induction us arbitrary: h)
  case Nil
  then show ?case by simp
next
  case (Cons e us)
  obtain r c where e: "e = (r, c)" by (cases e)
  with Cons.prems have mem: "(r, c) \<in> users (h a)" by simp
  with Cons.prems(1) have fw: "forward (h c) r = Some a" by (simp add: edge_symD)
  from unlink_ok[of h c r a, OF fw mem] obtain h1 where
    h1: "process_operation h (Unlink c a r) = Inr h1" by blast
  note u = unlink_effect[OF h1] unlink_fields[OF h1]
  have es1: "edge_sym h1" by (rule process_operation_edge_sym[OF Cons.prems(1) h1])
  have "forward (h1 c) r = None" using u(3)[of c r] by simp
  from link_ok[of h1 c r b, OF this] obtain h2 where
    h2: "process_operation h1 (Link c b r) = Inr h2" by blast
  note l = link_effect[OF h2] link_fields[OF h2]
  have es2: "edge_sym h2" by (rule process_operation_edge_sym[OF es1 h2])
  have us2: "users (h2 a) = users (h a) - {(r, c)}"
    using l(3)[of a] u(4)[of a] assms(2) by simp
  have sub: "set us \<subseteq> users (h2 a)"
    using Cons.prems(2,3) e us2 by auto
  from Cons.prems(2) have d: "distinct us" by simp
  from Cons.IH[OF es2 d sub] obtain h' where
    c: "commit h2 (concat (map (\<lambda>(r, c). [Unlink c a r, Link c b r]) us)) = Inr h'"
    and r: "edge_sym h'"
      "\<forall>c r. forward (h' c) r = (if (r, c) \<in> set us then Some b else forward (h2 c) r)"
      "\<forall>x. length (inputs (h' x)) = length (inputs (h2 x))"
      "users (h' a) = users (h2 a) - set us"
    by blast
  have fw': "forward (h' c') r' = (if (r', c') \<in> set (e # us) then Some b else forward (h c') r')"
    for c' r'
    using r(2) l(2)[of c' r'] u(3)[of c' r'] e by auto
  have len1: "length (inputs (h1 x)) = length (inputs (h x))" for x
    using u(6)[of x] by (cases r) auto
  have len2: "length (inputs (h2 x)) = length (inputs (h1 x))" for x
  proof (cases r)
    case FN
    then show ?thesis using l(5)[of x] by simp
  next
    case (IN idx)
    from fw IN have "idx < length (inputs (h c))"
      by (auto simp: forward_def split: if_splits)
    then have "idx < length (inputs (h1 c))" using len1 by simp
    then show ?thesis using l(5)[of x] IN by (simp add: pad_to_def)
  qed
  have us': "users (h' a) = users (h a) - set (e # us)"
    using r(4) us2 e by auto
  from c h1 h2 r(1) fw' r(3) len1 len2 us' show ?case using e by simp
qed

lemma edge_sym_used: "edge_sym used_store"
proof -
  have built: "mutate_all (bare_store, demo_graph) [SetApp 1 (Some 0) [Some 0]]
               = Inr (used_store, demo_graph)"
    apply (simp add: used_store_def bare_store_def new_node_def run_defs)
    apply (rule ext)
    apply (auto simp: insert_commute)
    done
  show ?thesis using mutate_all_edge_sym[OF _ built] edge_sym_bare by simp
qed

text \<open>
  C6, as the code has it.  On a store with symmetric edges, for \<open>B \<noteq> A\<close> and every
  order \<open>us\<close> in which the users of \<open>A\<close> are walked, \<^verbatim>\<open>A.redirect(B)\<close> completes;
  afterwards every former \<open>(role, consumer)\<close> of \<open>A\<close> is a forward edge of the
  consumer to \<open>B\<close> at that role, \<open>A\<close> has no users, \<open>B\<close> has gained exactly the
  users of \<open>A\<close>, and the forward edges of \<open>A\<close> are unchanged unless \<open>A\<close> was a
  consumer of itself.
\<close>

theorem redirect_moves_users:
  assumes "edge_sym h" and "a \<noteq> b" and "set us = users (h a)" and "distinct us"
  shows "\<exists>h'. redirect h a (Some b) us = Inr h' \<and> edge_sym h'
           \<and> (\<forall>(r, c) \<in> users (h a). forward (h' c) r = Some b)
           \<and> users (h' a) = {}
           \<and> users (h' b) = users (h b) \<union> users (h a)
           \<and> (a \<notin> snd ` users (h a) \<longrightarrow> fn (h' a) = fn (h a) \<and> inputs (h' a) = inputs (h a))"
proof -
  have sub: "set us \<subseteq> users (h a)" using assms(3) by simp
  from redirect_commit[OF assms(1,2,4) sub] obtain h' where
    c: "commit h (concat (map (\<lambda>(r, c). [Unlink c a r, Link c b r]) us)) = Inr h'"
    and es: "edge_sym h'"
    and fw: "\<forall>c r. forward (h' c) r = (if (r, c) \<in> set us then Some b else forward (h c) r)"
    and len: "\<forall>x. length (inputs (h' x)) = length (inputs (h x))"
    and us: "users (h' a) = users (h a) - set us"
    by blast
  have run: "redirect h a (Some b) us = Inr h'"
    using redirect_loop_users[OF assms(1,2) sub] c
    by (simp add: redirect_def redirect_operations_def commit_append process_operation_def)
  have moved: "\<forall>(r, c) \<in> users (h a). forward (h' c) r = Some b"
    using fw assms(3) by auto
  have empty: "users (h' a) = {}" using us assms(3) by simp
  have ub: "users (h' b) = users (h b) \<union> users (h a)"
  proof (rule set_eqI)
    fix e :: "role \<times> nat"
    obtain r c where e: "e = (r, c)" by (cases e)
    have "(e \<in> users (h' b)) = (forward (h' c) r = Some b)"
      using es e by (simp add: edge_symD)
    also have "\<dots> = ((r, c) \<in> set us \<or> forward (h c) r = Some b)"
      using fw by auto
    also have "\<dots> = (e \<in> users (h a) \<or> e \<in> users (h b))"
      using assms(1,3) e by (simp add: edge_symD)
    finally show "(e \<in> users (h' b)) = (e \<in> users (h b) \<union> users (h a))" by auto
  qed
  have own: "fn (h' a) = fn (h a) \<and> inputs (h' a) = inputs (h a)" if "a \<notin> snd ` users (h a)"
  proof
    have nu: "(r, a) \<notin> set us" for r using that assms(3) by force
    show "fn (h' a) = fn (h a)" using fw nu[of FN] by (auto simp: forward_def split: role.splits dest: spec[of _ a])
    show "inputs (h' a) = inputs (h a)"
    proof (rule nth_equalityI)
      show "length (inputs (h' a)) = length (inputs (h a))" using len by simp
    next
      fix i assume i: "i < length (inputs (h' a))"
      have "forward (h' a) (IN i) = forward (h a) (IN i)" using fw nu[of "IN i"] by simp
      then show "inputs (h' a) ! i = inputs (h a) ! i" using i len by (simp add: forward_def)
    qed
  qed
  from run es moved empty ub own show ?thesis by blast
qed

theorem redirect_moves_users_witness:
  "edge_sym used_store \<and> (0::nat) \<noteq> 2 \<and> set [(IN 0, 1), (FN, 1)] = users (used_store 0) \<and>
   distinct [(IN 0, 1::nat), (FN, 1)] \<and>
   (\<exists>h'. redirect used_store 0 (Some 2) [(IN 0, 1), (FN, 1)] = Inr h' \<and>
         forward (h' 1) FN = Some 2 \<and> forward (h' 1) (IN 0) = Some 2 \<and> users (h' 0) = {} \<and>
         users (h' 2) = {(FN, 1), (IN 0, 1)} \<and> fn (h' 0) = None \<and> inputs (h' 0) = [])"
proof -
  have s: "set [(IN 0, 1), (FN, 1)] = users (used_store 0)"
    by (auto simp: used_store_def)
  have d: "distinct [(IN 0, 1::nat), (FN, 1)]" by simp
  have n: "(0::nat) \<noteq> 2" by simp
  from redirect_moves_users[OF edge_sym_used n s d]
  obtain h' where "redirect used_store 0 (Some 2) [(IN 0, 1), (FN, 1)] = Inr h'"
    "\<forall>(r, c) \<in> users (used_store 0). forward (h' c) r = Some 2"
    "users (h' 0) = {}" "users (h' 2) = users (used_store 2) \<union> users (used_store 0)"
    "0 \<notin> snd ` users (used_store 0) \<longrightarrow> fn (h' 0) = fn (used_store 0) \<and> inputs (h' 0) = inputs (used_store 0)"
    by blast
  then show ?thesis using edge_sym_used s
    by (auto simp: used_store_def bare_store_def new_node_def)
qed

text \<open>
  The claim as stated fails for \<open>B = A\<close>: \<^verbatim>\<open>set_succ_operations\<close> returns no
  operation when the new successor is the old one, so \<open>A\<close> keeps its users.
\<close>

theorem redirect_to_itself_counterexample:
  "node_of (redirect used_store 0 (Some 0) [(IN 0, 1), (FN, 1)]) 0
   = Inr \<lparr>fn = None, inputs = [], users = {(FN, 1), (IN 0, 1)}, nvalue = NO_VALUE\<rparr>"
  by (simp add: node_of_def used_store_def bare_store_def new_node_def run_defs)

subsection \<open>Toposort of a graph whose output is no computation\<close>

text \<open>
  C10.  When the output node of a graph is not a computation node (\<^verbatim>\<open>fn\<close> is
  \<^verbatim>\<open>None\<close>: a constant, a graph reference or a free input), \<^verbatim>\<open>toposort\<close> returns
  the empty list: it neither raises nor enters the loop.
\<close>

theorem toposort_output_not_computation:
  "goutput g = Some out \<Longrightarrow> \<not> is_computation (h out) \<Longrightarrow> toposort pick h g = Some (Inr [])"
  by (simp add: toposort_def)

theorem toposort_output_not_computation_witness:
  "goutput \<lparr>ginputs = [], goutput = Some 0\<rparr> = Some 0 \<and> \<not> is_computation (bare_store 0) \<and>
   toposort Min bare_store \<lparr>ginputs = [], goutput = Some 0\<rparr> = Some (Inr [])"
proof -
  have a: "goutput \<lparr>ginputs = [], goutput = Some 0\<rparr> = Some 0" by simp
  have b: "\<not> is_computation (bare_store 0)"
    by (simp add: is_computation_def bare_store_def new_node_def)
  from toposort_output_not_computation
         [of "\<lparr>ginputs = [], goutput = Some 0\<rparr>" 0 bare_store Min, OF a b] a b
  show ?thesis by blast
qed

subsection \<open>Toposort of a graph with a cycle\<close>

text \<open>
  The store \<open>cyc_store\<close> is what three calls of \<^verbatim>\<open>set_app\<close> build; its edges are
  symmetric, and the computation nodes 1 and 2, reachable from the output node 0,
  consume each other.
\<close>

lemma cyc_built:
  "mutate_all
     (bare_store(10 := new_node (Literal ''f''), 11 := new_node (Literal ''g''),
                 12 := new_node (Literal ''h'')), cyc_graph)
     [SetApp 0 (Some 10) [Some 1], SetApp 1 (Some 11) [Some 2], SetApp 2 (Some 12) [Some 1]]
   = Inr (cyc_store, cyc_graph)"
  apply (simp add: cyc_store_def cyc_graph_def bare_store_def new_node_def run_defs)
  apply (rule ext)
  apply (auto simp: insert_commute)
  done

lemma cyc_store_cycle:
  "forward (cyc_store 0) (IN 0) = Some 1 \<and> forward (cyc_store 1) (IN 0) = Some 2 \<and>
   forward (cyc_store 2) (IN 0) = Some 1 \<and>
   is_computation (cyc_store 0) \<and> is_computation (cyc_store 1) \<and> is_computation (cyc_store 2)"
  by (simp add: cyc_store_def forward_def is_computation_def)

text \<open>
  C4 fails on the code.  Node 1 never becomes ready, because its consumer 2 is never
  processed, and node 2 never becomes ready, because its consumer 1 is never
  processed: the loop ends with \<^verbatim>\<open>ready\<close> empty and \<^verbatim>\<open>toposort\<close> returns the
  ordering \<open>[0]\<close>, whichever element \<^verbatim>\<open>ready.pop()\<close> takes.  The test
  \<^verbatim>\<open>node in processed\<close> is never reached with a processed node.
\<close>

theorem toposort_misses_cycle:
  assumes "\<And>S. finite S \<Longrightarrow> S \<noteq> {} \<Longrightarrow> pick S \<in> S"
  shows "toposort pick cyc_store cyc_graph = Some (Inr [0])"
proof -
  have p0: "pick {0} = 0" using assms[of "{0}"] by simp
  have p10: "pick {10} = 10" using assms[of "{10}"] by simp
  show ?thesis
    by (simp add: toposort_def cyc_graph_def cyc_store_def bare_store_def new_node_def
        is_computation_def p0 p10
        toposort_loop.simps[of _ _ "\<lparr>pred = p, ready = insert x r, processed = q, results = rs\<rparr>"
                            for p x r q rs]
        toposort_loop.simps[of _ _ "\<lparr>pred = p, ready = {}, processed = q, results = rs\<rparr>"
                            for p q rs]
        successors_list_def List.map_filter_simps visit_succ_def Let_def)
qed

theorem toposort_misses_cycle_witness:
  "toposort Min cyc_store cyc_graph = Some (Inr [0])"
  by (rule toposort_misses_cycle) (rule Min_in)

subsection \<open>Toposort of an acyclic graph after \<^verbatim>\<open>replace\<close>\<close>

text \<open>
  The store \<open>dead_store\<close> is what three calls of \<^verbatim>\<open>set_app\<close> and one call of
  \<^verbatim>\<open>replace\<close> build; its edges are symmetric and it has no cycle.
\<close>

lemma dead_built:
  "mutate_all (dead_base, dead_graph) dead_mutations = Inr (dead_store, dead_graph)"
  apply (simp add: dead_store_def dead_graph_def dead_base_def dead_mutations_def bare_store_def
      new_node_def run_defs)
  apply (rule ext)
  apply (auto simp: insert_commute)
  done

lemma edge_sym_dead_base: "edge_sym dead_base"
  unfolding edge_sym_def
proof (intro allI)
  fix a r b
  have "forward (dead_base a) r = None"
    by (cases r) (simp_all add: forward_def dead_base_def bare_store_def new_node_def)
  moreover have "users (dead_base b) = {}"
    by (simp add: dead_base_def bare_store_def new_node_def)
  ultimately show "(forward (dead_base a) r = Some b) = ((r, a) \<in> users (dead_base b))"
    by simp
qed

lemma edge_sym_dead: "edge_sym dead_store"
  using mutate_all_edge_sym[OF _ dead_built] edge_sym_dead_base by simp

lemma dead_succ:
  "successors (dead_store a) =
     (if a = 0 then {10, 1} else if a = 1 then {11, 4} else if a = 5 then {12, 1} else {})"
  by (simp add: successors_def successors_list_def dead_store_def bare_store_def new_node_def
      List.map_filter_simps)

lemma dead_acyclic: "acyclic (edges dead_store)"
proof -
  define g :: "nat \<Rightarrow> nat" where
    "g = (\<lambda>a. if a = 0 \<or> a = 5 then 2 else if a = 1 then 1 else 0)"
  have "edges dead_store \<subseteq> (measure g)\<inverse>"
    by (auto simp: edges_def dead_succ g_def split: if_splits)
  moreover have "acyclic ((measure g)\<inverse>)"
    using wf_acyclic[OF wf_measure[of g]] by (simp add: acyclic_converse)
  ultimately show ?thesis by (rule acyclic_subset[rotated])
qed

lemma dead_live:
  "goutput dead_graph = Some 0 \<and> is_computation (dead_store 0) \<and>
   (0, 1) \<in> edges dead_store \<and> is_computation (dead_store 1)"
  by (simp add: edges_def dead_succ dead_graph_def) (simp add: dead_store_def is_computation_def)

text \<open>
  C3 fails on the code.  The graph of \<open>dead_store\<close> is built by the mutations of the
  library, its edges are symmetric, it is acyclic, and the computation node 1 is an
  input of the output node 0.  \<^verbatim>\<open>toposort\<close> seeds \<^verbatim>\<open>pred[succ]\<close> with the nodes of
  all the entries of \<^verbatim>\<open>succ.users\<close>, also of the node 5 that \<^verbatim>\<open>replace\<close> has taken
  out of the graph.  Node 5 is not reachable from the output and is never processed,
  so node 1 never becomes ready: the loop ends with \<^verbatim>\<open>ready\<close> empty and
  \<^verbatim>\<open>toposort\<close> returns the ordering \<open>[0]\<close>, without the reachable computation node 1
  and without an error, whichever element \<^verbatim>\<open>ready.pop()\<close> takes.
\<close>

theorem toposort_drops_live_node:
  assumes "\<And>S. finite S \<Longrightarrow> S \<noteq> {} \<Longrightarrow> pick S \<in> S"
  shows "mutate_all (dead_base, dead_graph) dead_mutations = Inr (dead_store, dead_graph) \<and>
         edge_sym dead_store \<and> acyclic (edges dead_store) \<and>
         goutput dead_graph = Some 0 \<and> is_computation (dead_store 0) \<and>
         (0, 1) \<in> edges dead_store \<and> is_computation (dead_store 1) \<and>
         toposort pick dead_store dead_graph = Some (Inr [0])"
proof -
  have p0: "pick {0} = 0" using assms[of "{0}"] by simp
  have p10: "pick {10} = 10" using assms[of "{10}"] by simp
  have "toposort pick dead_store dead_graph = Some (Inr [0])"
    by (simp add: toposort_def dead_graph_def dead_store_def bare_store_def new_node_def
        is_computation_def p0 p10
        toposort_loop.simps[of _ _ "\<lparr>pred = p, ready = insert x r, processed = q, results = rs\<rparr>"
                            for p x r q rs]
        toposort_loop.simps[of _ _ "\<lparr>pred = p, ready = {}, processed = q, results = rs\<rparr>"
                            for p q rs]
        successors_list_def List.map_filter_simps visit_succ_def Let_def)
  with dead_built edge_sym_dead dead_acyclic dead_live show ?thesis by simp
qed

theorem toposort_drops_live_node_witness:
  "mutate_all (dead_base, dead_graph) dead_mutations = Inr (dead_store, dead_graph) \<and>
   edge_sym dead_store \<and> acyclic (edges dead_store) \<and>
   goutput dead_graph = Some 0 \<and> is_computation (dead_store 0) \<and>
   (0, 1) \<in> edges dead_store \<and> is_computation (dead_store 1) \<and>
   toposort Min dead_store dead_graph = Some (Inr [0])"
  by (rule toposort_drops_live_node) (rule Min_in)

section \<open>A-normal form: proofs\<close>

subsection \<open>Running the transformer on a tree\<close>

lemma string_of_nat_1: "string_of_nat (Suc 0) = ''1''"
  by (simp add: string_of_nat.simps digit_char_def)

lemma string_of_nat_2: "string_of_nat (Suc (Suc 0)) = ''2''"
  by (simp add: string_of_nat.simps digit_char_def)

lemmas sample_defs = sample_lambda_def sample_begin_def sample_bindings_def sample_body_def
  sf_def sg_def sx_def sp_def

lemmas anf_run = derive_base_name_def base_name_of_def ident_char_def default_tags_def
  string_of_nat_1 string_of_nat_2 finish_arguments_def stash_def gen_sym_def name_or_def
  begin_stmts_def

subsection \<open>The scenario \<^verbatim>\<open>Apply(f, Apply(g, x))\<close>\<close>

text \<open>
  C8, as the code has it.  For all symbols \<open>f\<close>, \<open>g\<close>, \<open>x\<close>, normalizing a
  \<^verbatim>\<open>Lambda\<close> whose body is \<^verbatim>\<open>Apply(f, Apply(g, x))\<close> with \<^verbatim>\<open>a_normal\<close> yields the
  \<^verbatim>\<open>Lambda\<close> with the body \<^verbatim>\<open>Let([(t1, Apply(g, x)), (t2, Apply(f, t1))], t2)\<close>: the
  application of \<open>f\<close> is bound as well and the body is its name, as the docstring of
  \<^verbatim>\<open>a_normal\<close> says.  The names \<open>t1\<close> and \<open>t2\<close> come from the generator of the
  \<^verbatim>\<open>Lambda\<close>; they differ from each other and from every symbol in the scope of
  that generator.
\<close>

theorem a_normal_nested_apply:
  "\<exists>t1 t2 G'.
     a_normal (Lambda args (Apply (Sym f) [Apply (Sym g) [Sym x]]) k ref) G
       = Inr (Lambda args (Let [(t1, Apply (Sym g) [Sym x]), (t2, Apply (Sym f) [Sym t1])] (Sym t2)) k ref, G')
     \<and> t1 \<noteq> t2
     \<and> (\<forall>s. in_scope G k s \<longrightarrow> s \<noteq> t1 \<and> s \<noteq> t2)"
proof -
  let ?b = "base_name_of (base_label f)"
  let ?t1 = "Symbol (LStr (?b @ ''/in1'')) (G k)"
  let ?t2 = "Symbol (LStr (?b @ ''/out'')) (Suc (G k))"
  have run: "a_normal (Lambda args (Apply (Sym f) [Apply (Sym g) [Sym x]]) k ref) G
       = Inr (Lambda args (Let [(?t1, Apply (Sym g) [Sym x]), (?t2, Apply (Sym f) [Sym ?t1])] (Sym ?t2)) k ref,
              G(k := Suc (Suc (G k))))"
    by (simp add: a_normal_def derive_base_name_def default_tags_def string_of_nat_1
          finish_arguments_def stash_def gen_sym_def name_or_def)
  have fresh: "\<forall>s. in_scope G k s \<longrightarrow> s \<noteq> ?t1 \<and> s \<noteq> ?t2"
    by (auto simp: in_scope_def sym_version_def)
  have "?t1 \<noteq> ?t2" by simp
  with run fresh show ?thesis by blast
qed

theorem a_normal_nested_apply_witness:
  "in_scope (\<lambda>_. 1) 0 sf \<and> in_scope (\<lambda>_. 1) 0 sg \<and> in_scope (\<lambda>_. 1) 0 sx \<and>
   (\<exists>t1 t2 G'.
      a_normal (Lambda [sx] (Apply (Sym sf) [Apply (Sym sg) [Sym sx]]) 0 0) (\<lambda>_. 1)
        = Inr (Lambda [sx] (Let [(t1, Apply (Sym sg) [Sym sx]), (t2, Apply (Sym sf) [Sym t1])]
                                (Sym t2)) 0 0, G')
      \<and> t1 \<noteq> t2 \<and> t1 \<notin> {sf, sg, sx} \<and> t2 \<notin> {sf, sg, sx})"
proof -
  have s: "in_scope (\<lambda>_. 1) 0 sf" "in_scope (\<lambda>_. 1) 0 sg" "in_scope (\<lambda>_. 1) 0 sx"
    by (simp_all add: in_scope_def sym_version_def sf_def sg_def sx_def)
  from a_normal_nested_apply[of "[sx]" sf sg sx 0 0 "\<lambda>_. 1"] obtain t1 t2 G' where
    "a_normal (Lambda [sx] (Apply (Sym sf) [Apply (Sym sg) [Sym sx]]) 0 0) (\<lambda>_. 1)
        = Inr (Lambda [sx] (Let [(t1, Apply (Sym sg) [Sym sx]), (t2, Apply (Sym sf) [Sym t1])]
                                (Sym t2)) 0 0, G')"
    "t1 \<noteq> t2" "\<forall>s. in_scope (\<lambda>_. 1) 0 s \<longrightarrow> s \<noteq> t1 \<and> s \<noteq> t2"
    by blast
  with s show ?thesis by blast
qed

text \<open>
  The claim as stated fails.  On the bare tree \<^verbatim>\<open>a_normal\<close> raises: its transformer
  has no generator (\<^verbatim>\<open>ANormalTransformer()\<close>), and the first name it needs is an
  \<^verbatim>\<open>AttributeError\<close>.  Under a \<^verbatim>\<open>Lambda\<close> the result has two bindings and a symbol
  as body, not one binding and \<^verbatim>\<open>Apply(f, t)\<close> as body.
\<close>

theorem a_normal_nested_apply_counterexample:
  "a_normal (Apply (Sym sf) [Apply (Sym sg) [Sym sx]]) (\<lambda>_. 1) = Inl AttributeError \<and>
   map_sum id fst (a_normal (Lambda [sx] (Apply (Sym sf) [Apply (Sym sg) [Sym sx]]) 0 0) (\<lambda>_. 1))
     = Inr (Lambda [sx]
              (Let [(Symbol (LStr ''f/in1'') 1, Apply (Sym sg) [Sym sx]),
                    (Symbol (LStr ''f/out'') 2, Apply (Sym sf) [Sym (Symbol (LStr ''f/in1'') 1)])]
                   (Sym (Symbol (LStr ''f/out'') 2))) 0 0)"
  by (simp add: a_normal_def sf_def sg_def sx_def anf_run)

subsection \<open>\<^verbatim>\<open>transform_Begin\<close>\<close>

lemma begin_stmts_eq: "begin_stmts stmts = drop_leading_atoms stmts"
proof (induction stmts rule: drop_leading_atoms.induct)
  case 1
  then show ?case by (simp add: begin_stmts_def)
next
  case (2 s)
  then show ?case by (simp add: begin_stmts_def)
next
  case (3 s t rest)
  then show ?case by (simp add: begin_stmts_def)
qed

text \<open>
  The loop \<^verbatim>\<open>[self.gen('_') for stmt in stmts]\<close> makes the names of the spec, one per
  statement, and leaves the counter of the generator moved on by their number.
\<close>

lemma fresh_names_Suc:
  "fresh_names G k (Suc n) = Symbol (LStr ''_'') (G k) # fresh_names (G(k := Suc (G k))) k n"
proof -
  have "map (\<lambda>i. Symbol (LStr ''_'') (G k + i)) [0..<Suc n]
        = Symbol (LStr ''_'') (G k) # map (\<lambda>i. Symbol (LStr ''_'') (G k + Suc i)) [0..<n]"
    by (simp add: upt_conv_Cons map_Suc_upt[symmetric] del: upt_Suc)
  then show ?thesis by (simp add: fresh_names_def)
qed

lemma gen_syms_fresh_names:
  "gen_syms (Some k) xs G = Inr (fresh_names G k (length xs), G(k := G k + length xs))"
proof (induction xs arbitrary: G)
  case Nil
  then show ?case by (simp add: fresh_names_def)
next
  case (Cons x xs)
  define G' where "G' = G(k := Suc (G k))"
  have u: "G'(k := G' k + length xs) = G(k := G k + length (x # xs))"
    by (rule ext) (simp add: G'_def)
  have s1: "gen_sym G k ''_'' = (Symbol (LStr ''_'') (G k), G')"
    by (simp add: gen_sym_def G'_def)
  have ih: "gen_syms (Some k) xs G'
            = Inr (fresh_names G' k (length xs), G'(k := G' k + length xs))"
    by (rule Cons.IH)
  have n: "fresh_names G k (length (x # xs))
           = Symbol (LStr ''_'') (G k) # fresh_names G' k (length xs)"
    unfolding G'_def by (simp add: fresh_names_Suc)
  have "gen_syms (Some k) (x # xs) G
        = Inr (Symbol (LStr ''_'') (G k) # fresh_names G' k (length xs),
               G'(k := G' k + length xs))"
    by (simp add: s1 ih)
  then show ?case unfolding u n .
qed

lemma fresh_names_length: "length (fresh_names G k n) = n"
  by (simp add: fresh_names_def)

lemma fresh_names_distinct: "distinct (fresh_names G k n)"
  by (simp add: fresh_names_def distinct_map inj_on_def)

lemma fresh_names_fresh:
  "s \<in> set (fresh_names G k n) \<Longrightarrow> \<not> in_scope G k s \<and> is_anonymous s"
  by (auto simp: fresh_names_def in_scope_def sym_version_def is_anonymous_def)

text \<open>
  C9.  For every \<^verbatim>\<open>Begin\<close> node, every transformer and every stash directive,
  \<^verbatim>\<open>transform_Begin\<close> does what the spec says: it drops every statement before the
  last that is a bare atom; if exactly one statement remains, the result is the
  normalization of that statement under the incoming stash; otherwise the result is the
  normalization, under the incoming stash, of the \<^verbatim>\<open>Let\<close> that binds the synthesized
  names to the remaining statements in order and has the last name as body.  The
  synthesized names are one per remaining statement, anonymous (label \<^verbatim>\<open>_\<close>),
  pairwise different, and fresh: none of them is in the scope of the generator.
\<close>

theorem transform_Begin_spec:
  "transform gen (Begin stmts) st G = begin_spec gen stmts st G \<and>
   length (fresh_names G k n) = n \<and> distinct (fresh_names G k n) \<and>
   (\<forall>s \<in> set (fresh_names G k n). \<not> in_scope G k s \<and> is_anonymous s)"
proof -
  have "transform gen (Begin stmts) st G = begin_spec gen stmts st G"
  proof (cases "drop_leading_atoms stmts")
    case Nil
    then show ?thesis
      by (simp add: begin_spec_def begin_stmts_eq)
  next
    case (Cons s rest)
    note kept = this
    show ?thesis
    proof (cases rest)
      case Nil
      with kept show ?thesis by (simp add: begin_spec_def begin_stmts_eq)
    next
      case (Cons t rest')
      show ?thesis
      proof (cases gen)
        case None
        with kept Cons show ?thesis by (simp add: begin_spec_def begin_stmts_eq)
      next
        case (Some k')
        have ne: "fresh_names G k' (Suc (Suc (length rest'))) \<noteq> []"
          using fresh_names_length[of G k' "Suc (Suc (length rest'))"] by auto
        from Some kept Cons ne show ?thesis
          by (simp add: begin_spec_def begin_stmts_eq gen_syms_fresh_names Let_def)
      qed
    qed
  qed
  then show ?thesis
    using fresh_names_length fresh_names_distinct fresh_names_fresh by blast
qed

theorem transform_Begin_spec_witness:
  "transform (Some 0) (Begin [Apply (Sym sg) [Sym sx], Sym sx, Apply (Sym sf) [Sym sx]])
     NoStash (\<lambda>_. 1)
   = transform (Some 0)
       (Let [(Symbol (LStr ''_'') 1, Apply (Sym sg) [Sym sx]),
             (Symbol (LStr ''_'') 2, Apply (Sym sf) [Sym sx])]
            (Sym (Symbol (LStr ''_'') 2))) NoStash ((\<lambda>_. 1)(0 := 3)) \<and>
   fresh_names (\<lambda>_. 1) 0 2 = [Symbol (LStr ''_'') 1, Symbol (LStr ''_'') 2] \<and>
   distinct (fresh_names (\<lambda>_. 1) 0 2) \<and>
   \<not> in_scope (\<lambda>_. 1) 0 (Symbol (LStr ''_'') 1) \<and> \<not> in_scope (\<lambda>_. 1) 0 (Symbol (LStr ''_'') 2)"
proof -
  note t = transform_Begin_spec[of "Some 0"
      "[Apply (Sym sg) [Sym sx], Sym sx, Apply (Sym sf) [Sym sx]]" NoStash "\<lambda>_. 1" 0 2]
  have n: "fresh_names (\<lambda>_. 1) 0 2 = [Symbol (LStr ''_'') 1, Symbol (LStr ''_'') 2]"
    by (simp add: fresh_names_def upt_conv_Cons)
  have b: "begin_spec (Some 0) [Apply (Sym sg) [Sym sx], Sym sx, Apply (Sym sf) [Sym sx]]
             NoStash (\<lambda>_. 1)
           = transform (Some 0)
               (Let [(Symbol (LStr ''_'') 1, Apply (Sym sg) [Sym sx]),
                     (Symbol (LStr ''_'') 2, Apply (Sym sf) [Sym sx])]
                    (Sym (Symbol (LStr ''_'') 2))) NoStash ((\<lambda>_. 1)(0 := 3))"
    unfolding begin_spec_def
    by (simp add: fresh_names_def upt_conv_Cons Let_def numeral_2_eq_2 numeral_3_eq_3
        del: transform.simps)
  from t have e: "transform (Some 0)
        (Begin [Apply (Sym sg) [Sym sx], Sym sx, Apply (Sym sf) [Sym sx]]) NoStash (\<lambda>_. 1)
      = begin_spec (Some 0) [Apply (Sym sg) [Sym sx], Sym sx, Apply (Sym sf) [Sym sx]]
          NoStash (\<lambda>_. 1)"
    by (rule conjunct1)
  from t have d: "distinct (fresh_names (\<lambda>_. 1) 0 2)" by blast
  from t have f: "\<forall>s \<in> set (fresh_names (\<lambda>_. 1) 0 2). \<not> in_scope (\<lambda>_. 1) 0 s" by blast
  from f have f1: "\<not> in_scope (\<lambda>_. 1) 0 (Symbol (LStr ''_'') 1)"
    and f2: "\<not> in_scope (\<lambda>_. 1) 0 (Symbol (LStr ''_'') 2)"
    unfolding n by simp_all
  from e b n d f1 f2 show ?thesis by (simp del: transform.simps)
qed

text \<open>Two runs: one statement remains; two statements remain.\<close>

lemma begin_example_single:
  "transform (Some 0) (Begin [Sym sx, Value 3, Apply (Sym sf) [Sym sx]]) NoStash (\<lambda>_. 1)
   = transform (Some 0) (Apply (Sym sf) [Sym sx]) NoStash (\<lambda>_. 1)"
  by (simp add: begin_stmts_def)

lemma begin_example_many:
  "map_sum id fst (transform (Some 0) sample_begin NoStash (\<lambda>_. 1))
   = map_sum id fst (transform (Some 0)
       (Let [(Symbol (LStr ''_'') 1, Apply (Sym sg) [Sym sx]),
             (Symbol (LStr ''_'') 2, Apply (Sym sf) [Sym sx])]
            (Sym (Symbol (LStr ''_'') 2))) NoStash ((\<lambda>_. 1)(0 := 3)))"
  by (simp add: sample_defs anf_run)

subsection \<open>The shape of what the transformer returns\<close>

lemma normal_bindings_append [simp]:
  "normal_bindings (xs @ ys) = (normal_bindings xs \<and> normal_bindings ys)"
  by (induction xs) auto

lemma atom_normal: "is_atom e \<Longrightarrow> normal_shape e"
  by (cases e) auto

lemma stash_shape:
  assumes "stash gen st result d G = Inr (r, acc', G')" and "normal_shape result"
  shows "shape_ok st r acc'"
  using assms
  by (auto simp: stash_def shape_ok_def gen_sym_def split: stash.splits option.splits)

lemma construct_shape:
  "construct c new_args = Inr app \<Longrightarrow> list_all is_atom new_args \<Longrightarrow> normal_shape app"
  by (induction c new_args rule: construct.induct) auto

lemma finish_shape:
  assumes "finish_arguments gen c st bn new_args bs G = Inr (r, acc', G')"
    and "list_all is_atom new_args" and "normal_bindings bs"
  shows "shape_ok st r acc'"
proof -
  from assms(1) obtain app where app: "construct c new_args = Inr app"
    by (auto simp: finish_arguments_def split: sum.splits)
  have na: "normal_shape app" by (rule construct_shape[OF app assms(2)])
  show ?thesis
  proof (cases st)
    case NoStash
    with assms(1) app obtain nm bs' G1 where
      s1: "stash gen (Stash None bs) app (bn @ ''/out'') G = Inr (nm, bs', G1)"
      and s2: "stash gen NoStash (Let bs' nm) (bn @ ''/out'') G1 = Inr (r, acc', G')"
      by (auto simp: finish_arguments_def split: sum.splits)
    from stash_shape[OF s1 na] assms(3) have "normal_shape (Let bs' nm)"
      by (auto simp: shape_ok_def atom_normal)
    from stash_shape[OF s2 this] show ?thesis using NoStash by simp
  next
    case (Stash n acc)
    with assms(1) app have
      s: "stash gen st (if bs \<noteq> [] then Let bs app else app) (bn @ ''/out'') G = Inr (r, acc', G')"
      by (auto simp: finish_arguments_def split: sum.splits)
    have "normal_shape (if bs \<noteq> [] then Let bs app else app)" using na assms(3) by simp
    from stash_shape[OF s this] show ?thesis .
  qed
qed

lemma default_tags_some [simp]: "None \<notin> set (default_tags xs)"
  by (auto simp: default_tags_def)

lemma tags_ok_choice:
  "tags_ok tags \<Longrightarrow> None \<notin> set (case tags of None \<Rightarrow> default_tags xs | Some ts \<Rightarrow> ts)"
  by (cases tags) (auto simp: tags_ok_def)

lemma transform_shape:
  "transform gen e st G = Inr (r, acc', G') \<Longrightarrow> shape_ok st r acc'"
  "transform_arguments gen args c st bn tags G = Inr (r, acc', G') \<Longrightarrow> tags_ok tags
     \<Longrightarrow> shape_ok st r acc'"
  "transform_loop gen base args tgs bs G = Inr (rs, bs', G') \<Longrightarrow> None \<notin> set tgs
     \<Longrightarrow> list_all is_atom rs \<and> (\<exists>new. bs' = bs @ new \<and> normal_bindings new)"
  "transform_Let gen bs body st G = Inr (r, acc', G') \<Longrightarrow> shape_ok st r acc'"
  "transform_bindings gen bs G = Inr (bs', G') \<Longrightarrow> normal_bindings bs'"
proof (induction gen e st G and gen args c st bn tags G and gen base args tgs bs G
         and gen bs body st G and gen bs G
       arbitrary: r acc' G' and r acc' G' and rs bs' G' and r acc' G' and bs' G'
       rule: transform_transform_arguments_transform_loop_transform_Let_transform_bindings.induct)
  case (1 gen f args st G)
  then show ?case by (simp add: tags_ok_def)
next
  case (2 gen s st G)
  then show ?case by (auto simp: shape_ok_def split: stash.splits)
next
  case (3 gen v st G)
  then show ?case by (auto simp: shape_ok_def split: stash.splits)
next
  case (4 gen args body lgen ref st G)
  from "4.prems" obtain body' bs G1 where
    b: "transform (Some lgen) body NoStash G = Inr (body', bs, G1)"
    and s: "stash gen st (Lambda args body' lgen ref) ''lambda'' G1 = Inr (r, acc', G')"
    by (auto split: sum.splits)
  from "4.IH"[OF b] have "normal_shape (Lambda args body' lgen ref)"
    by (simp add: shape_ok_def)
  from stash_shape[OF s this] show ?case .
next
  case (5 gen c t f st G)
  then show ?case by (simp add: tags_ok_def)
next
  case (6 gen bs body st G)
  then show ?case by simp
next
  case (7 gen vs st G)
  then show ?case by (simp add: tags_ok_def)
next
  case (8 gen f args st G)
  then show ?case by (simp add: tags_ok_def)
next
  case (9 gen stmts st G)
  show ?case
  proof (cases "length (begin_stmts stmts) = 1")
    case True
    with "9.prems" "9.IH"(1) show ?thesis by simp
  next
    case False
    with "9.prems" obtain syms G1 where
      g: "gen_syms gen (begin_stmts stmts) G = Inr (syms, G1)" and ne: "syms \<noteq> []"
      and l: "transform_Let gen (zip syms (begin_stmts stmts)) (Sym (last syms)) st G1 = Inr (r, acc', G')"
      by (auto split: sum.splits if_splits)
    from "9.IH"(2)[OF False g refl ne l] show ?thesis .
  qed
next
  case (10 gen args c st tags G)
  from "10.prems"(1) obtain f rest where args: "args = f # rest"
    by (cases args) auto
  with "10.prems"(1) obtain f' bs G1 base_name new_args bs2 G2 where
    t: "transform gen f (Stash None []) G = Inr (f', bs, G1)"
    and d: "derive_base_name f' = Inr base_name"
    and lp: "transform_loop gen base_name rest
              (case tags of None \<Rightarrow> default_tags rest | Some ts \<Rightarrow> ts) bs G1
             = Inr (new_args, bs2, G2)"
    and fin: "finish_arguments gen c st base_name (f' # new_args) bs2 G2 = Inr (r, acc', G')"
    by (auto split: sum.splits)
  from "10.IH"(1)[OF args t] have f': "is_atom f'" and bs: "normal_bindings bs"
    by (auto simp: shape_ok_def)
  from "10.IH"(2)[OF args t refl refl d lp tags_ok_choice[OF "10.prems"(2)]]
  have "list_all is_atom new_args" and "normal_bindings bs2"
    using bs by auto
  with f' show ?case using finish_shape[OF fin] by simp
next
  case (11 gen args c st base_name tags G)
  from "11.prems"(1) obtain new_args bs2 G2 where
    lp: "transform_loop gen base_name args
              (case tags of None \<Rightarrow> default_tags args | Some ts \<Rightarrow> ts) [] G
             = Inr (new_args, bs2, G2)"
    and fin: "finish_arguments gen c st base_name new_args bs2 G2 = Inr (r, acc', G')"
    by (auto split: sum.splits)
  from "11.IH"[OF lp tags_ok_choice[OF "11.prems"(2)]]
  have "list_all is_atom new_args" and "normal_bindings bs2" by auto
  then show ?case using finish_shape[OF fin] by simp
next
  case (12 gen base_name tags bs G)
  then show ?case by simp
next
  case (13 gen base_name a args bs G)
  then show ?case by simp
next
  case (14 gen base_name a args tag tags bs G)
  from "14.prems"(2) obtain t where tag: "tag = Some t" and rest: "None \<notin> set tags"
    by (cases tag) auto
  with "14.prems"(1) obtain a' bs1 G1 new_args where
    t: "transform gen a (Stash (Some (base_name @ ''/'' @ t)) bs) G = Inr (a', bs1, G1)"
    and lp: "transform_loop gen base_name args tags bs1 G1 = Inr (new_args, bs', G')"
    and rs: "rs = a' # new_args"
    by (auto split: sum.splits)
  from "14.IH"(2)[OF tag t] obtain new1 where a': "is_atom a'"
    and b1: "bs1 = bs @ new1" "normal_bindings new1"
    by (auto simp: shape_ok_def)
  have e: "(case tag of None \<Rightarrow> (case transform gen a NoStash G of Inl e \<Rightarrow> Inl e
                 | Inr (a', unused, G') \<Rightarrow> Inr (a', bs, G'))
            | Some t \<Rightarrow> transform gen a (Stash (Some (base_name @ ''/'' @ t)) bs) G)
           = Inr (a', bs1, G1)"
    using tag t by simp
  from "14.IH"(3)[OF e refl refl lp rest] obtain new2 where
    "list_all is_atom new_args" "bs' = bs1 @ new2" "normal_bindings new2" by auto
  with a' b1 rs show ?case by auto
next
  case (15 gen bs body st G)
  from "15.prems" obtain bs1 G1 body' un G2 where
    b: "transform_bindings gen bs G = Inr (bs1, G1)"
    and t: "transform gen body NoStash G1 = Inr (body', un, G2)"
    and s: "stash gen st (Let bs1 body') ''if'' G2 = Inr (r, acc', G')"
    by (auto split: sum.splits)
  from "15.IH"(1)[OF b] "15.IH"(2)[OF b refl t]
  have "normal_shape (Let bs1 body')" by (simp add: shape_ok_def)
  from stash_shape[OF s this] show ?case .
next
  case (16 gen G)
  then show ?case by simp
next
  case (17 gen s b bs G)
  from "17.prems" obtain b' un G1 bs1 where
    t: "transform gen b NoStash G = Inr (b', un, G1)"
    and r: "transform_bindings gen bs G1 = Inr (bs1, G')"
    and e: "bs' = (s, b') # bs1"
    by (auto split: sum.splits)
  from "17.IH"(1)[OF t] "17.IH"(2)[OF t refl refl r] e show ?case
    by (simp add: shape_ok_def)
qed

subsection \<open>The collapser on a tree of that shape\<close>

lemma flat_bindings_append [simp]:
  "flat_bindings (xs @ ys) = (flat_bindings xs \<and> flat_bindings ys)"
  by (induction xs) auto

lemma atom_flat: "is_atom e \<Longrightarrow> flat e"
  by (cases e) auto

lemma atoms_flat_list: "list_all is_atom es \<Longrightarrow> flat_list es"
  by (induction es) (auto simp: atom_flat)

lemma collapse_atom: "is_atom e \<Longrightarrow> collapse e = Inr e"
  by (cases e) auto

lemma collapse_atoms: "list_all is_atom es \<Longrightarrow> collapse_list es = Inr es"
  by (induction es) (auto simp: collapse_atom)

lemma normal_operands:
  "normal_shape e \<Longrightarrow> operands_atomic e"
  "normal_bindings bs \<Longrightarrow> operands_atomic_bindings bs"
  by (induction e and bs rule: normal_shape_normal_bindings.induct) auto

lemma collapse_normal:
  "normal_shape e \<Longrightarrow> \<exists>e'. collapse e = Inr e' \<and> flat e' \<and> normal_shape e'"
  "normal_bindings bs \<Longrightarrow>
     \<exists>bs'. collapse_bindings bs = Inr bs' \<and> flat_bindings bs' \<and> normal_bindings bs'"
proof (induction e and bs rule: normal_shape_normal_bindings.induct)
  case (1 f args)
  then show ?case
    by (auto simp: collapse_atom collapse_atoms atom_flat atoms_flat_list)
next
  case (2 s)
  then show ?case by simp
next
  case (3 v)
  then show ?case by simp
next
  case (4 bs body)
  from 4 obtain bs' where b: "collapse_bindings bs = Inr bs'" "flat_bindings bs'" "normal_bindings bs'"
    by auto
  from 4 obtain body' where c: "collapse body = Inr body'" "flat body'" "normal_shape body'"
    by auto
  show ?case
  proof (cases body')
    case (Let bs2 body2)
    with b c show ?thesis by auto
  qed (use b c in auto)
next
  case (5 args body lgen ref)
  then show ?case by auto
next
  case (6 c t f)
  then show ?case by (auto simp: collapse_atom atom_flat)
next
  case (7 vs)
  then show ?case by (auto simp: collapse_atoms atoms_flat_list)
next
  case (8 f args)
  then show ?case by (auto simp: atom_flat atoms_flat_list)
next
  case (9 stmts)
  then show ?case by simp
next
  case 10
  then show ?case by simp
next
  case (11 s b bs)
  from 11 obtain b' where b: "collapse b = Inr b'" "flat b'" "normal_shape b'" by auto
  from 11 obtain bs' where r: "collapse_bindings bs = Inr bs'" "flat_bindings bs'" "normal_bindings bs'"
    by auto
  show ?case
  proof (cases b')
    case (Let bs1 body1)
    with b r show ?thesis by auto
  qed (use b r in auto)
qed

lemma collapse_bindings_splice:
  "collapse_list (map snd bs) = Inr cbs \<Longrightarrow>
   collapse_bindings bs = Inr (concat (map2 splice (map fst bs) cbs))"
proof (induction bs arbitrary: cbs)
  case Nil
  then show ?case by simp
next
  case (Cons sb bs)
  obtain s b where sb: "sb = (s, b)" by (cases sb)
  from Cons.prems sb obtain b' rest where
    b: "collapse b = Inr b'" and r: "collapse_list (map snd bs) = Inr rest" and c: "cbs = b' # rest"
    by (auto split: sum.splits)
  from Cons.IH[OF r] show ?case using sb b c
    by (cases b') (auto simp: splice_def)
qed

lemma collapse_Let_merge:
  assumes "collapse_list (map snd bs) = Inr cbs" and "collapse body = Inr cbody"
  shows "collapse (Let bs body) = Inr (merge_body (concat (map2 splice (map fst bs) cbs)) cbody)"
  using collapse_bindings_splice[OF assms(1)] assms(2)
  by (cases cbody) (auto simp: merge_body_def)

text \<open>
  C2.  Whenever \<^verbatim>\<open>a_normal\<close> (the A-normal transformer followed by the collapser)
  returns a tree, every operand position of every \<^verbatim>\<open>Apply\<close>, \<^verbatim>\<open>If\<close>, \<^verbatim>\<open>Tuple\<close>
  and \<^verbatim>\<open>Closure\<close> node of that tree (function position, argument, condition, branch,
  tuple element, closure capture) holds a \<^verbatim>\<open>Symbol\<close> or a \<^verbatim>\<open>Value\<close>.
\<close>

theorem a_normal_operands_atomic:
  assumes "a_normal t G = Inr (t', G')"
  shows "operands_atomic t'"
proof -
  from assms obtain t1 acc where
    tr: "transform None t NoStash G = Inr (t1, acc, G')" and co: "collapse t1 = Inr t'"
    by (auto simp: a_normal_def split: sum.splits)
  from transform_shape(1)[OF tr] have "normal_shape t1" by (simp add: shape_ok_def)
  from collapse_normal(1)[OF this] co have "normal_shape t'" by auto
  then show ?thesis by (rule normal_operands(1))
qed

lemma sample_lambda_runs: "\<exists>t' G'. a_normal sample_lambda (\<lambda>_. 1) = Inr (t', G')"
  by (simp add: a_normal_def sample_defs anf_run)

theorem a_normal_operands_atomic_witness:
  "\<exists>t' G'. a_normal sample_lambda (\<lambda>_. 1) = Inr (t', G') \<and> operands_atomic t'"
proof -
  from sample_lambda_runs obtain t' G' where r: "a_normal sample_lambda (\<lambda>_. 1) = Inr (t', G')"
    by blast
  from a_normal_operands_atomic[OF r] r show ?thesis by blast
qed

text \<open>
  C5.  On every tree the A-normal transformer returns, the collapser succeeds and its
  result is flat: no \<^verbatim>\<open>Let\<close> node has a \<^verbatim>\<open>Let\<close> as a binding value or as its
  body.  And the collapser splices as the spec says: when the right-hand sides of the
  bindings collapse to \<open>cbs\<close> and the body to \<open>cbody\<close>, the collapsed \<^verbatim>\<open>Let\<close> has,
  in order, for each binding the bindings of its collapsed right-hand side (when that
  is a \<^verbatim>\<open>Let\<close>) followed by the binding itself with the inner body as value, then
  the bindings of \<open>cbody\<close> when that is a \<^verbatim>\<open>Let\<close>, and the inner body as body.
\<close>

theorem collapse_flat:
  "(transform gen t st G = Inr (t1, acc, G') \<longrightarrow> (\<exists>t2. collapse t1 = Inr t2 \<and> flat t2)) \<and>
   (collapse_list (map snd bs) = Inr cbs \<and> collapse body = Inr cbody \<longrightarrow>
      collapse (Let bs body) = Inr (merge_body (concat (map2 splice (map fst bs) cbs)) cbody))"
proof (intro conjI impI)
  assume "transform gen t st G = Inr (t1, acc, G')"
  then have "normal_shape t1" using transform_shape(1) by (auto simp: shape_ok_def)
  then show "\<exists>t2. collapse t1 = Inr t2 \<and> flat t2" using collapse_normal(1) by blast
next
  assume "collapse_list (map snd bs) = Inr cbs \<and> collapse body = Inr cbody"
  then show "collapse (Let bs body) = Inr (merge_body (concat (map2 splice (map fst bs) cbs)) cbody)"
    using collapse_Let_merge by blast
qed

lemma sample_begin_runs: "\<exists>t1 acc G'. transform (Some 0) sample_begin NoStash (\<lambda>_. 1) = Inr (t1, acc, G') \<and> \<not> flat t1"
  by (simp add: sample_defs anf_run)

lemma sample_collapse:
  "collapse_list (map snd sample_bindings) = Inr [Let [(sg, Value 1)] (Sym sg), Value 3] \<and>
   collapse sample_body = Inr sample_body"
  by (simp add: sample_defs)

theorem collapse_flat_witness:
  "(\<exists>t1 acc G'. transform (Some 0) sample_begin NoStash (\<lambda>_. 1) = Inr (t1, acc, G') \<and> \<not> flat t1 \<and>
       (\<exists>t2. collapse t1 = Inr t2 \<and> flat t2)) \<and>
   collapse_list (map snd sample_bindings) = Inr [Let [(sg, Value 1)] (Sym sg), Value 3] \<and>
   collapse sample_body = Inr sample_body \<and>
   collapse (Let sample_bindings sample_body)
     = Inr (Let [(sg, Value 1), (sf, Sym sg), (sx, Value 3), (sp, Value 2)] (Sym sp))"
proof -
  from sample_begin_runs obtain t1 acc G' where
    r: "transform (Some 0) sample_begin NoStash (\<lambda>_. 1) = Inr (t1, acc, G')" and nf: "\<not> flat t1"
    by blast
  note th = collapse_flat[of "Some 0" sample_begin NoStash "\<lambda>_. 1" t1 acc G' sample_bindings
      "[Let [(sg, Value 1)] (Sym sg), Value 3]" sample_body sample_body]
  from th r have a: "\<exists>t2. collapse t1 = Inr t2 \<and> flat t2" by blast
  from th sample_collapse have
    "collapse (Let sample_bindings sample_body)
     = Inr (merge_body (concat (map2 splice (map fst sample_bindings)
                                  [Let [(sg, Value 1)] (Sym sg), Value 3])) sample_body)"
    by blast
  then have b: "collapse (Let sample_bindings sample_body)
     = Inr (Let [(sg, Value 1), (sf, Sym sg), (sx, Value 3), (sp, Value 2)] (Sym sp))"
    by (simp add: merge_body_def splice_def sample_bindings_def sample_body_def)
  from r nf a sample_collapse b show ?thesis by blast
qed

end
